theory Spec2Isabelle
  imports Complex_Main
begin

section \<open>JavaScript values\<close>

text \<open>
  The script computes with JavaScript numbers and with the two empty values
  \<open>null\<close> and \<open>undefined\<close>.  Finite numbers are reals here, and the operations of this
  section are exact; the rounding of each operation to a double is added in the section
  on double precision, for the statements whose truth depends on it.  \<open>NaN\<close> stands for
  a result that is not a finite number: the NaN of JavaScript, and also the outcome of a
  division by zero.
\<close>

datatype jsval = Null | Undefined | NaN | Num real

datatype error = TypeError

text \<open>ToNumber: \<open>null\<close> is 0, \<open>undefined\<close> and NaN are not numbers.\<close>

fun toNumber :: "jsval \<Rightarrow> real option" where
  "toNumber Null = Some 0"
| "toNumber Undefined = None"
| "toNumber NaN = None"
| "toNumber (Num r) = Some r"

definition jsadd :: "jsval \<Rightarrow> jsval \<Rightarrow> jsval" where
  "jsadd a b = (case (toNumber a, toNumber b) of
                  (Some x, Some y) \<Rightarrow> Num (x + y) | _ \<Rightarrow> NaN)"

definition jssub :: "jsval \<Rightarrow> jsval \<Rightarrow> jsval" where
  "jssub a b = (case (toNumber a, toNumber b) of
                  (Some x, Some y) \<Rightarrow> Num (x - y) | _ \<Rightarrow> NaN)"

definition jsmul :: "jsval \<Rightarrow> jsval \<Rightarrow> jsval" where
  "jsmul a b = (case (toNumber a, toNumber b) of
                  (Some x, Some y) \<Rightarrow> Num (x * y) | _ \<Rightarrow> NaN)"

definition jsdiv :: "jsval \<Rightarrow> jsval \<Rightarrow> jsval" where
  "jsdiv a b = (case (toNumber a, toNumber b) of
                  (Some x, Some y) \<Rightarrow> (if y = 0 then NaN else Num (x / y))
                | _ \<Rightarrow> NaN)"

text \<open>The comparison \<open>a < b\<close>: false as soon as one side is not a number.\<close>

definition jslt :: "jsval \<Rightarrow> jsval \<Rightarrow> bool" where
  "jslt a b = (case (toNumber a, toNumber b) of
                 (Some x, Some y) \<Rightarrow> x < y | _ \<Rightarrow> False)"

text \<open>\<open>Math.round\<close>: the nearest integer, a tie going up.\<close>

definition Math_round :: "jsval \<Rightarrow> jsval" where
  "Math_round v = (case toNumber v of
                     Some x \<Rightarrow> Num (of_int \<lfloor>x + 1 / 2\<rfloor>) | None \<Rightarrow> NaN)"

text \<open>The operator \<open>a || b\<close>: \<open>b\<close> when \<open>a\<close> is falsy (null, undefined, NaN or 0).\<close>

definition falsy :: "jsval \<Rightarrow> bool" where
  "falsy v = (case v of Num r \<Rightarrow> r = 0 | _ \<Rightarrow> True)"

definition js_or :: "jsval \<Rightarrow> jsval \<Rightarrow> jsval" where
  "js_or a b = (if falsy a then b else a)"

section \<open>Interpolation over a sparse series\<close>

text \<open>A series is the array of \<open>[year, value]\<close> pairs of one attribute of one nation.\<close>

type_synonym series = "(real \<times> real) list"

text \<open>
  Modelled from the spec: \<open>d3.bisector(d => d[0]).left\<close> is library code that is not
  part of the repository; the spec describes it as the left bisection over the sorted
  series that finds the smallest index whose year is at least the query year.  The
  definition is the library's loop
  \<^verbatim>\<open>while (lo < hi) { mid = lo + hi >>> 1;
                     if (compare(a[mid], x) < 0) lo = mid + 1; else hi = mid; } return lo;\<close>
  with \<open>compare(d, x) < 0\<close> exactly when \<open>d[0] < x\<close>.  It is called with \<open>lo = 0\<close> and
  \<open>hi = a.length - 1\<close> only, so every index read is inside the array and
  \<open>lo + hi >>> 1\<close> is the halved sum.
\<close>

function bisect_left :: "series \<Rightarrow> jsval \<Rightarrow> int \<Rightarrow> int \<Rightarrow> int" where
  "bisect_left a x lo hi =
     (if lo < hi then
        (let mid = (lo + hi) div 2 in
         if jslt (Num (fst (a ! nat mid))) x
         then bisect_left a x (mid + 1) hi
         else bisect_left a x lo mid)
      else lo)"
  by pat_completeness auto
termination
  by (relation "measure (\<lambda>(a, x, lo, hi). nat (hi - lo))") auto

declare bisect_left.simps [simp del]

text \<open>
  \<open>interpolateValues(values, year)\<close>.  On an empty array the bisection returns 0,
  \<open>values[0]\<close> is \<open>undefined\<close> and reading \<open>a[1]\<close> throws a TypeError.
\<close>

definition interpolateValues :: "series \<Rightarrow> jsval \<Rightarrow> error + jsval" where
  "interpolateValues values year =
     (let i = bisect_left values year 0 (int (length values) - 1) in
      if values = [] then Inl TypeError
      else
        let a = values ! nat i in
        if i > 0 then
          let b = values ! nat (i - 1);
              t = jsdiv (jssub year (Num (fst a))) (jssub (Num (fst b)) (Num (fst a)))
          in Inr (jsadd (jsmul (Num (snd a)) (jssub (Num 1) t)) (jsmul (Num (snd b)) t))
        else Inr (Num (snd a)))"

section \<open>Frames\<close>

text \<open>
  A nation of \<open>nations.json\<close> and an element of the array built by \<open>interpolateData\<close>
  have the same five fields; the three attributes are series in the first and numbers in
  the second.
\<close>

record 'a nation =
  name :: string
  region :: string
  income :: 'a
  population :: 'a
  lifeExpectancy :: 'a

text \<open>One element of \<open>nations.map(d => ({...}))\<close>; the fields are evaluated in order.\<close>

definition interpolateDatum :: "series nation \<Rightarrow> jsval \<Rightarrow> error + jsval nation" where
  "interpolateDatum d year =
     (case interpolateValues (income d) year of
        Inl e \<Rightarrow> Inl e
      | Inr i \<Rightarrow>
          (case interpolateValues (population d) year of
             Inl e \<Rightarrow> Inl e
           | Inr p \<Rightarrow>
               (case interpolateValues (lifeExpectancy d) year of
                  Inl e \<Rightarrow> Inl e
                | Inr l \<Rightarrow>
                    Inr \<lparr>name = name d, region = region d, income = i,
                         population = p, lifeExpectancy = l\<rparr>)))"

fun interpolateData :: "series nation list \<Rightarrow> jsval \<Rightarrow> error + jsval nation list" where
  "interpolateData [] year = Inr []"
| "interpolateData (d # ds) year =
     (case interpolateDatum d year of
        Inl e \<Rightarrow> Inl e
      | Inr x \<Rightarrow>
          (case interpolateData ds year of
             Inl e \<Rightarrow> Inl e
           | Inr xs \<Rightarrow> Inr (x # xs)))"

section \<open>The page\<close>

text \<open>
  \<open>window.pVals\<close>.  What is drawn is the frame bound to the dots (their positions, radii
  and painting order are functions of it), the text of the year label and the value last
  given to the slider widget.
\<close>

record pVals =
  lastTween :: jsval
  currTween :: jsval
  currYear :: jsval

record display =
  dots :: "jsval nation list"
  label :: jsval
  slider :: jsval

text \<open>
  The transitions named \<open>yeah\<close> that the transition library holds for the \<open>svg\<close> node:
  each has an id, a phase, the duration computed when it was created and, once started,
  the tween function returned by \<open>tweenYear\<close>.  That function is determined by the first
  argument of its \<open>d3.interpolateNumber\<close>, which is what \<open>tween\<close> stores.
\<close>

datatype phase = SCHEDULED | STARTED | RUNNING

record sched =
  sid :: nat
  phase :: phase
  sduration :: jsval
  tween :: jsval

text \<open>
  The whole state: \<open>armed\<close> says that \<open>enableInteraction\<close> has installed the overlay's
  \<open>mousemove\<close> handler, \<open>uncaught\<close> lists the exceptions that left an event handler.
\<close>

record sys =
  pVals :: pVals
  display :: display
  schedules :: "sched list"
  next_id :: nat
  armed :: bool
  uncaught :: "error list"

text \<open>The label's bounding box, of which the script reads \<open>x\<close> and \<open>width\<close>.\<close>

record bbox =
  box_x :: real
  box_width :: real

text \<open>How a call ends: normally, or by an exception; either way with a state.\<close>

datatype completion = Normal | Throw error

definition settle :: "completion \<times> sys \<Rightarrow> sys" where
  "settle r = (case r of
                 (Normal, s) \<Rightarrow> s
               | (Throw e, s) \<Rightarrow> s\<lparr>uncaught := uncaught s @ [e]\<rparr>)"

subsection \<open>The functions of the script\<close>

text \<open>
  \<open>displayYear(year)\<close>: \<open>interpolateData\<close> runs first, so when it throws nothing has been
  drawn.  The assignment to \<open>window.pVals.currYear\<close> in its body is commented out.
\<close>

definition displayYear :: "series nation list \<Rightarrow> jsval \<Rightarrow> sys \<Rightarrow> completion \<times> sys" where
  "displayYear nations year s =
     (case interpolateData nations year of
        Inl e \<Rightarrow> (Throw e, s)
      | Inr frame \<Rightarrow>
          (Normal, s\<lparr>display := \<lparr>dots = frame, label = Math_round year,
                                  slider = Math_round year\<rparr>\<rparr>))"

text \<open>\<open>calRatio()\<close> returns the ratio and stores it in \<open>lastTween\<close>.\<close>

definition calRatio :: "pVals \<Rightarrow> jsval \<times> pVals" where
  "calRatio this =
     (let allWidth = Num (2009 - 1800);
          diff = jssub (currYear this) (Num 1800)
      in (jsdiv diff allWidth, this\<lparr>lastTween := jsdiv diff allWidth\<rparr>))"

definition duration :: real where
  "duration = 209000"

text \<open>The function given to \<open>.duration(...)\<close>, evaluated when the transition is created.\<close>

definition transition_duration :: "pVals \<Rightarrow> jsval" where
  "transition_duration pv = jssub (Num duration) (jsmul (Num duration) (lastTween pv))"

text \<open>
  Modelled from the spec: \<open>d3.interpolateNumber(a, b)\<close> is library code; it is the linear
  easing of a fraction to a year, \<open>t \<mapsto> a + (b - a) * t\<close>.
\<close>

definition interpolateNumber :: "jsval \<Rightarrow> jsval \<Rightarrow> jsval \<Rightarrow> jsval" where
  "interpolateNumber a b t = jsadd a (jsmul (jssub b a) t)"

text \<open>
  \<open>tweenYear()\<close> builds \<open>year = d3.interpolateNumber(window.pVals.currYear || 1800, 2009)\<close>
  and returns a function of \<open>t\<close>; \<open>tweenYear\<close> below is the first argument of the
  interpolator and \<open>tweenYear_fn a\<close> the returned function.
\<close>

definition tweenYear :: "sys \<Rightarrow> jsval" where
  "tweenYear s = js_or (currYear (pVals s)) (Num 1800)"

definition tweenYear_fn :: "series nation list \<Rightarrow> jsval \<Rightarrow> jsval \<Rightarrow> sys \<Rightarrow> completion \<times> sys" where
  "tweenYear_fn nations a t s =
     (let t' = jsadd t (lastTween (pVals s));
          y = interpolateNumber a (Num 2009) t';
          s' = s\<lparr>pVals := (pVals s)\<lparr>currTween := t', currYear := Math_round y\<rparr>\<rparr>
      in displayYear nations y s')"

text \<open>
  \<open>enableInteraction()\<close> installs the overlay's handlers.  Its
  \<open>svg.transition().duration(0)\<close> creates a transition without a name, which the
  library keeps apart from the ones named \<open>yeah\<close>.
\<close>

definition enableInteraction :: "sys \<Rightarrow> sys" where
  "enableInteraction s = s\<lparr>armed := True\<rparr>"

text \<open>The three listeners that \<open>transition()\<close> registers.\<close>

definition on_start :: "series nation list \<Rightarrow> sys \<Rightarrow> completion \<times> sys" where
  "on_start nations s = tweenYear_fn nations (tweenYear s) Undefined s"

definition on_end :: "sys \<Rightarrow> sys" where
  "on_end s = enableInteraction s"

definition on_interrupt :: "sys \<Rightarrow> sys" where
  "on_interrupt s = s\<lparr>pVals := (pVals s)\<lparr>lastTween := currTween (pVals s)\<rparr>\<rparr>"

text \<open>\<open>transition()\<close> creates a transition named \<open>yeah\<close> on the \<open>svg\<close> node.\<close>

definition transition :: "sys \<Rightarrow> sys" where
  "transition s =
     s\<lparr>schedules := schedules s @
          [\<lparr>sid = next_id s, phase = SCHEDULED,
            sduration = transition_duration (pVals s), tween = Undefined\<rparr>],
       next_id := Suc (next_id s)\<rparr>"

definition startPlaying :: "sys \<Rightarrow> sys" where
  "startPlaying s = transition s"

text \<open>
  Modelled from the spec: \<open>d3.scaleLinear().domain([1800, 2009]).range([..]).clamp(true)\<close>
  is library code; its \<open>invert\<close> maps a pointer position linearly from the band
  \<open>[box.x + 10, box.x + box.width - 10]\<close> to a year and clamps the year to
  \<open>[1800, 2009]\<close>.  A band that runs backwards is mapped backwards, an empty one to 1800.
\<close>

definition yearScale_invert :: "bbox \<Rightarrow> real \<Rightarrow> real" where
  "yearScale_invert box px =
     (let r0 = box_x box + 10; r1 = box_x box + box_width box - 10 in
      if r1 < r0 then
        (let t = (px - r1) / (r0 - r1) in
         if t \<le> 0 then 2009 else if t \<ge> 1 then 1800 else 2009 + (1800 - 2009) * t)
      else if r1 = r0 then 1800
      else
        (let t = (px - r0) / (r1 - r0) in
         if t \<le> 0 then 1800 else if t \<ge> 1 then 2009 else 1800 + (2009 - 1800) * t))"

text \<open>The overlay's \<open>mousemove\<close> handler, with the pointer's horizontal coordinate.\<close>

definition mousemove :: "series nation list \<Rightarrow> bbox \<Rightarrow> real \<Rightarrow> sys \<Rightarrow> completion \<times> sys" where
  "mousemove nations box px s = displayYear nations (Num (yearScale_invert box px)) s"

text \<open>The slider's \<open>slide\<close> handler, with \<open>ui.value\<close>.\<close>

definition slide :: "series nation list \<Rightarrow> real \<Rightarrow> sys \<Rightarrow> completion \<times> sys" where
  "slide nations v s =
     (let s1 = s\<lparr>pVals := (pVals s)\<lparr>currYear := Num v\<rparr>\<rparr>;
          s2 = s1\<lparr>pVals := snd (calRatio (pVals s1))\<rparr>
      in displayYear nations (Num v) s2)"

subsection \<open>The transition library\<close>

text \<open>
  Modelled from the spec: the scheduling of transitions (\<open>svg.transition\<close>,
  \<open>svg.interrupt\<close>, the timer that starts and ticks a transition) is library code that
  is not part of the repository.  The spec's state machine (start, tick, end, stop) is
  realised by the library as follows, and the definitions below follow it step by step.
  \<^item> \<open>svg.interrupt('yeah')\<close> removes every transition of that name from the node and
    calls the \<open>interrupt\<close> listener of each one that had started.
  \<^item> When the timer starts a scheduled transition, the start is put off while another one
    has started and not ticked yet.  Otherwise a running transition is removed and its
    \<open>interrupt\<close> listener called, older scheduled ones are removed, the \<open>start\<close>
    listener is called and, after it, the tween function is created.  A transition whose
    \<open>start\<close> listener throws is dropped.
  \<^item> A tick at elapsed time \<open>e\<close> calls the tween function with \<open>e / duration\<close> (the
    easing is linear) while \<open>e < duration\<close>, and otherwise with 1, after which the
    \<open>end\<close> listener is called and the transition removed.
\<close>

definition active :: "sched \<Rightarrow> bool" where
  "active sc = (phase sc = STARTED \<or> phase sc = RUNNING)"

definition d3_interrupt :: "sys \<Rightarrow> sys" where
  "d3_interrupt s =
     foldl (\<lambda>s' sc. if active sc then on_interrupt s' else s')
       (s\<lparr>schedules := []\<rparr>) (schedules s)"

definition stopPlaying :: "sys \<Rightarrow> sys" where
  "stopPlaying s = d3_interrupt s"

text \<open>What the start of transition \<open>k\<close> does to each of the other transitions, in order.\<close>

fun preempt :: "nat \<Rightarrow> sched list \<Rightarrow> sys \<Rightarrow> sys" where
  "preempt k [] s = s"
| "preempt k (o' # os) s =
     (if sid o' = k then preempt k os s
      else if phase o' = RUNNING then
        preempt k os (on_interrupt (s\<lparr>schedules := filter (\<lambda>sc. sid sc \<noteq> sid o') (schedules s)\<rparr>))
      else if sid o' < k then
        preempt k os (s\<lparr>schedules := filter (\<lambda>sc. sid sc \<noteq> sid o') (schedules s)\<rparr>)
      else preempt k os s)"

definition d3_start :: "series nation list \<Rightarrow> nat \<Rightarrow> sys \<Rightarrow> sys" where
  "d3_start nations k s =
     (case find (\<lambda>sc. sid sc = k \<and> phase sc = SCHEDULED) (schedules s) of
        None \<Rightarrow> s
      | Some self \<Rightarrow>
          (case find (\<lambda>sc. phase sc = STARTED) (schedules s) of
             Some other \<Rightarrow> s
           | None \<Rightarrow>
               (case on_start nations (preempt k (schedules s) s) of
                  (Throw e, s') \<Rightarrow>
                    s'\<lparr>schedules := filter (\<lambda>sc. sid sc \<noteq> k) (schedules s'),
                       uncaught := uncaught s' @ [e]\<rparr>
                | (Normal, s') \<Rightarrow>
                    s'\<lparr>schedules :=
                         map (\<lambda>sc. if sid sc = k
                                   then sc\<lparr>phase := STARTED, tween := tweenYear s'\<rparr> else sc)
                           (schedules s')\<rparr>)))"

definition d3_tick :: "series nation list \<Rightarrow> nat \<Rightarrow> real \<Rightarrow> sys \<Rightarrow> sys" where
  "d3_tick nations k elapsed s =
     (case find (\<lambda>sc. sid sc = k \<and> active sc) (schedules s) of
        None \<Rightarrow> s
      | Some sc \<Rightarrow>
          if jslt (Num elapsed) (sduration sc) then
            settle (tweenYear_fn nations (tween sc) (jsdiv (Num elapsed) (sduration sc))
              (s\<lparr>schedules :=
                   map (\<lambda>sc'. if sid sc' = k then sc'\<lparr>phase := RUNNING\<rparr> else sc') (schedules s)\<rparr>))
          else
            (case tweenYear_fn nations (tween sc) (Num 1)
                    (s\<lparr>schedules := filter (\<lambda>sc'. sid sc' \<noteq> k) (schedules s)\<rparr>) of
               (Throw e, s') \<Rightarrow> s'\<lparr>uncaught := uncaught s' @ [e]\<rparr>
             | (Normal, s') \<Rightarrow> on_end s'))"

subsection \<open>Events\<close>

text \<open>
  The page reacts to clicks on the two buttons, to the timer of the transition library
  (the start of a transition, a tick at an elapsed time), to the pointer over the
  year label's overlay and to the slider.  The overlay's first \<open>mouseover\<close> runs
  \<open>enableInteraction\<close>; before it the overlay has no \<open>mousemove\<close> handler.
\<close>

datatype event =
    ClickPlay
  | ClickStop
  | TimerStart nat
  | TimerTick nat real
  | Mouseover
  | Mousemove real
  | Slide real

fun step :: "series nation list \<Rightarrow> bbox \<Rightarrow> sys \<Rightarrow> event \<Rightarrow> sys" where
  "step nations box s ClickPlay = startPlaying s"
| "step nations box s ClickStop = stopPlaying s"
| "step nations box s (TimerStart k) = d3_start nations k s"
| "step nations box s (TimerTick k elapsed) = d3_tick nations k elapsed s"
| "step nations box s Mouseover = enableInteraction s"
| "step nations box s (Mousemove px) =
     (if armed s then settle (mousemove nations box px s) else s)"
| "step nations box s (Slide v) = settle (slide nations v s)"

definition run :: "series nation list \<Rightarrow> bbox \<Rightarrow> sys \<Rightarrow> event list \<Rightarrow> sys" where
  "run nations box s evs = foldl (step nations box) s evs"

text \<open>
  The state once the script has loaded: the dots show the frame of 1800, and loading fails
  when that frame cannot be built.
\<close>

definition init :: "series nation list \<Rightarrow> error + sys" where
  "init nations =
     (case interpolateData nations (Num 1800) of
        Inl e \<Rightarrow> Inl e
      | Inr frame \<Rightarrow>
          Inr \<lparr>pVals = \<lparr>lastTween = Num 0, currTween = Null, currYear = Null\<rparr>,
               display = \<lparr>dots = frame, label = Num 1800, slider = Num 1800\<rparr>,
               schedules = [], next_id = 0, armed = False, uncaught = []\<rparr>)"

section \<open>Well-formed states\<close>

text \<open>
  What holds of the transitions in every state the page can reach: their ids are distinct
  and below the next id, at most one of them has started, and the tween function of one
  that has started interpolates from 1800.
\<close>

definition inv :: "sys \<Rightarrow> bool" where
  "inv s =
     (distinct (map sid (schedules s)) \<and>
      (\<forall>sc \<in> set (schedules s). sid sc < next_id s \<and> (active sc \<longrightarrow> tween sc = Num 1800)) \<and>
      (\<forall>sc \<in> set (schedules s). \<forall>sc' \<in> set (schedules s). active sc \<and> active sc' \<longrightarrow> sc = sc'))"

text \<open>Every series of every nation has a sample, so that every frame can be built.\<close>

definition drawable :: "series nation list \<Rightarrow> bool" where
  "drawable nations =
     list_all (\<lambda>d. income d \<noteq> [] \<and> population d \<noteq> [] \<and> lifeExpectancy d \<noteq> []) nations"

section \<open>A small data set\<close>

text \<open>
  The series of the spec's scenario, one nation carrying it in its three attributes, a
  label box 229 units wide, and the state in which the script leaves the page on this
  data.
\<close>

definition scenario_series :: series where
  "scenario_series = [(1800, 100), (1850, 200), (1900, 300)]"

definition scenario_nations :: "series nation list" where
  "scenario_nations =
     [\<lparr>name = ''A'', region = ''R'', income = scenario_series,
       population = scenario_series, lifeExpectancy = scenario_series\<rparr>]"

definition scenario_box :: bbox where
  "scenario_box = \<lparr>box_x = 0, box_width = 229\<rparr>"

definition scenario_init :: sys where
  "scenario_init =
     \<lparr>pVals = \<lparr>lastTween = Num 0, currTween = Null, currYear = Null\<rparr>,
      display = \<lparr>dots = [\<lparr>name = ''A'', region = ''R'', income = Num 100,
                           population = Num 100, lifeExpectancy = Num 100\<rparr>],
                 label = Num 1800, slider = Num 1800\<rparr>,
      schedules = [], next_id = 0, armed = False, uncaught = []\<rparr>"

text \<open>
  Three states of a session on this data: half-way through the first sweep; paused there
  and resumed, then paused again 62.7 seconds into the resumed sweep; and the state after
  the first pause.
\<close>

definition scenario_playing :: sys where
  "scenario_playing =
     run scenario_nations scenario_box scenario_init
       [ClickPlay, TimerStart 0, TimerTick 0 104500]"

definition scenario_paused :: sys where
  "scenario_paused = step scenario_nations scenario_box scenario_playing ClickStop"

definition scenario_paused_again :: sys where
  "scenario_paused_again =
     run scenario_nations scenario_box scenario_paused
       [ClickPlay, TimerStart 1, TimerTick 1 62700, ClickStop]"

section \<open>Double precision\<close>

text \<open>
  The definitions above compute with exact reals, which is what the engine does only up
  to rounding: every arithmetic operation of the script yields the IEEE 754 binary64
  number nearest to the exact result, a tie going to the even significand.  Where a
  statement compares two expressions that denote the same real number but are rounded
  differently, the functions concerned are taken again here with that rounding after each
  operation.  Comparisons are exact, so the bisection is the same.

  \<open>binade n x\<close> is the exponent \<open>e\<close> with \<open>2^e \<le> x < 2^(e+1)\<close>, found in at most \<open>n\<close>
  halvings or doublings; binary64 exponents lie between -1074 and 1023, so 1100 steps
  decide every case.  Below \<open>2^-1022\<close> the spacing stays \<open>2^-1074\<close> (subnormal numbers);
  a result of magnitude \<open>2^1024\<close> or more is infinite, which \<open>NaN\<close> stands for.
\<close>

fun binade :: "nat \<Rightarrow> real \<Rightarrow> int" where
  "binade 0 x = 0"
| "binade (Suc n) x =
     (if 2 \<le> x then binade n (x / 2) + 1
      else if x < 1 then binade n (x * 2) - 1
      else 0)"

definition pow2 :: "int \<Rightarrow> real" where
  "pow2 k = (if 0 \<le> k then 2 ^ nat k else 1 / 2 ^ nat (- k))"

definition round_half_even :: "real \<Rightarrow> int" where
  "round_half_even q =
     (let f = \<lfloor>q\<rfloor>; d = q - of_int f in
      if d < 1 / 2 then f
      else if 1 / 2 < d then f + 1
      else if even f then f else f + 1)"

definition binary64 :: "real \<Rightarrow> jsval" where
  "binary64 x =
     (if x = 0 then Num 0
      else
        let e = max (binade 1100 \<bar>x\<bar>) (- 1022);
            u = pow2 (e - 52);
            r = of_int (round_half_even (x / u)) * u
        in if r = 0 then Num 0
           else if 1024 \<le> binade 1100 \<bar>r\<bar> then NaN
           else Num r)"

definition jsadd64 :: "jsval \<Rightarrow> jsval \<Rightarrow> jsval" where
  "jsadd64 a b = (case (toNumber a, toNumber b) of
                    (Some x, Some y) \<Rightarrow> binary64 (x + y) | _ \<Rightarrow> NaN)"

definition jssub64 :: "jsval \<Rightarrow> jsval \<Rightarrow> jsval" where
  "jssub64 a b = (case (toNumber a, toNumber b) of
                    (Some x, Some y) \<Rightarrow> binary64 (x - y) | _ \<Rightarrow> NaN)"

definition jsmul64 :: "jsval \<Rightarrow> jsval \<Rightarrow> jsval" where
  "jsmul64 a b = (case (toNumber a, toNumber b) of
                    (Some x, Some y) \<Rightarrow> binary64 (x * y) | _ \<Rightarrow> NaN)"

definition jsdiv64 :: "jsval \<Rightarrow> jsval \<Rightarrow> jsval" where
  "jsdiv64 a b = (case (toNumber a, toNumber b) of
                    (Some x, Some y) \<Rightarrow> (if y = 0 then NaN else binary64 (x / y))
                  | _ \<Rightarrow> NaN)"

text \<open>\<open>interpolateValues(values, year)\<close> as the engine computes it.\<close>

definition interpolateValues64 :: "series \<Rightarrow> jsval \<Rightarrow> error + jsval" where
  "interpolateValues64 values year =
     (let i = bisect_left values year 0 (int (length values) - 1) in
      if values = [] then Inl TypeError
      else
        let a = values ! nat i in
        if i > 0 then
          let b = values ! nat (i - 1);
              t = jsdiv64 (jssub64 year (Num (fst a))) (jssub64 (Num (fst b)) (Num (fst a)))
          in Inr (jsadd64 (jsmul64 (Num (snd a)) (jssub64 (Num 1) t)) (jsmul64 (Num (snd b)) t))
        else Inr (Num (snd a)))"




subsection \<open>The spec's formulas, computed the same way\<close>

text \<open>
  The spec's interpolation between a lower and an upper sample:
  \<open>t = (year - lower.year) / (upper.year - lower.year)\<close> and
  \<open>lower.value * (1 - t) + upper.value * t\<close>.
\<close>

definition valueAt_spec64 :: "real \<times> real \<Rightarrow> real \<times> real \<Rightarrow> jsval \<Rightarrow> jsval" where
  "valueAt_spec64 lower upper year =
     (let t = jsdiv64 (jssub64 year (Num (fst lower)))
                (jssub64 (Num (fst upper)) (Num (fst lower)))
      in jsadd64 (jsmul64 (Num (snd lower)) (jssub64 (Num 1) t)) (jsmul64 (Num (snd upper)) t))"

text \<open>
  The linear extrapolation of the last two samples,
  \<open>last.value + (year - last.year) * (last.value - secondLast.value)
     / (last.year - secondLast.year)\<close>.
\<close>

definition extrapolation_spec64 :: "real \<times> real \<Rightarrow> real \<times> real \<Rightarrow> jsval \<Rightarrow> jsval" where
  "extrapolation_spec64 secondLast last' year =
     jsadd64 (Num (snd last'))
       (jsdiv64
          (jsmul64 (jssub64 year (Num (fst last')))
             (jssub64 (Num (snd last')) (Num (snd secondLast))))
          (jssub64 (Num (fst last')) (Num (fst secondLast))))"


section \<open>The bisection on a sorted series\<close>

lemma bisect_left_range:
  "lo \<le> hi \<Longrightarrow> lo \<le> bisect_left a x lo hi \<and> bisect_left a x lo hi \<le> hi"
proof (induction a x lo hi rule: bisect_left.induct)
  case (1 a x lo hi)
  show ?case
  proof (cases "lo < hi")
    case False
    with "1.prems" show ?thesis by (simp add: bisect_left.simps)
  next
    case True
    define mid where "mid = (lo + hi) div 2"
    have m: "lo \<le> mid" "mid < hi" using True by (auto simp: mid_def)
    show ?thesis
    proof (cases "jslt (Num (fst (a ! nat mid))) x")
      case lt: True
      have "mid + 1 \<le> bisect_left a x (mid + 1) hi \<and> bisect_left a x (mid + 1) hi \<le> hi"
        using "1.IH"(1)[OF True mid_def lt] m by simp
      moreover have "bisect_left a x lo hi = bisect_left a x (mid + 1) hi"
        using True lt by (subst bisect_left.simps) (simp add: mid_def Let_def)
      ultimately show ?thesis using m by simp
    next
      case ge: False
      have "lo \<le> bisect_left a x lo mid \<and> bisect_left a x lo mid \<le> mid"
        using "1.IH"(2)[OF True mid_def ge] m by simp
      moreover have "bisect_left a x lo hi = bisect_left a x lo mid"
        using True ge by (subst bisect_left.simps) (simp add: mid_def Let_def)
      ultimately show ?thesis using m by simp
    qed
  qed
qed

lemma sorted_years_nth:
  "sorted (map fst a) \<Longrightarrow> i \<le> j \<Longrightarrow> j < length a \<Longrightarrow> fst (a ! i) \<le> fst (a ! j)"
  using sorted_nth_mono [of "map fst a" i j] by simp

lemma strict_years_nth:
  "sorted_wrt (<) (map fst a) \<Longrightarrow> i < j \<Longrightarrow> j < length a \<Longrightarrow> fst (a ! i) < fst (a ! j)"
  using sorted_wrt_nth_less [of "(<)" "map fst a" i j] by simp

lemma bisect_left_split:
  "sorted (map fst a) \<Longrightarrow> 0 \<le> lo \<Longrightarrow> lo \<le> hi \<Longrightarrow> hi \<le> int (length a) \<Longrightarrow>
   (\<forall>j. lo \<le> j \<and> j < bisect_left a (Num y) lo hi \<longrightarrow> fst (a ! nat j) < y) \<and>
   (\<forall>j. bisect_left a (Num y) lo hi \<le> j \<and> j < hi \<longrightarrow> y \<le> fst (a ! nat j))"
proof (induction a "Num y" lo hi rule: bisect_left.induct)
  case (1 a lo hi)
  show ?case
  proof (cases "lo < hi")
    case False
    then show ?thesis by (simp add: bisect_left.simps)
  next
    case True
    define mid where "mid = (lo + hi) div 2"
    have m: "lo \<le> mid" "mid < hi" using True by (auto simp: mid_def)
    show ?thesis
    proof (cases "jslt (Num (fst (a ! nat mid))) (Num y)")
      case lt: True
      then have below: "fst (a ! nat mid) < y" by (simp add: jslt_def)
      have eq: "bisect_left a (Num y) lo hi = bisect_left a (Num y) (mid + 1) hi"
        using True lt by (subst bisect_left.simps) (simp add: mid_def Let_def)
      have ih: "(\<forall>j. mid + 1 \<le> j \<and> j < bisect_left a (Num y) (mid + 1) hi \<longrightarrow> fst (a ! nat j) < y) \<and>
            (\<forall>j. bisect_left a (Num y) (mid + 1) hi \<le> j \<and> j < hi \<longrightarrow> y \<le> fst (a ! nat j))"
        using "1.hyps"(1)[OF True mid_def lt] "1.prems" m by simp
      have "fst (a ! nat j) < y" if "lo \<le> j" "j \<le> mid" for j
      proof -
        have "fst (a ! nat j) \<le> fst (a ! nat mid)"
          using sorted_years_nth [OF "1.prems"(1), of "nat j" "nat mid"] that m "1.prems" by simp
        then show ?thesis using below by simp
      qed
      then show ?thesis using ih unfolding eq
        by (metis add.commute not_le zless_imp_add1_zle)
    next
      case ge: False
      then have above: "y \<le> fst (a ! nat mid)" by (simp add: jslt_def)
      have eq: "bisect_left a (Num y) lo hi = bisect_left a (Num y) lo mid"
        using True ge by (subst bisect_left.simps) (simp add: mid_def Let_def)
      have ih: "(\<forall>j. lo \<le> j \<and> j < bisect_left a (Num y) lo mid \<longrightarrow> fst (a ! nat j) < y) \<and>
            (\<forall>j. bisect_left a (Num y) lo mid \<le> j \<and> j < mid \<longrightarrow> y \<le> fst (a ! nat j))"
        using "1.hyps"(2)[OF True mid_def ge] "1.prems" m by simp
      have "y \<le> fst (a ! nat j)" if "mid \<le> j" "j < hi" for j
      proof -
        have "fst (a ! nat mid) \<le> fst (a ! nat j)"
          using sorted_years_nth [OF "1.prems"(1), of "nat mid" "nat j"] that m "1.prems" by simp
        then show ?thesis using above by simp
      qed
      then show ?thesis using ih unfolding eq
        by (metis not_le)
    qed
  qed
qed

lemma bisect_left_split_nat:
  assumes "sorted (map fst a)" "0 \<le> lo" "lo \<le> hi" "hi \<le> int (length a)"
  shows "(\<forall>j::nat. lo \<le> int j \<and> int j < bisect_left a (Num y) lo hi \<longrightarrow> fst (a ! j) < y) \<and>
         (\<forall>j::nat. bisect_left a (Num y) lo hi \<le> int j \<and> int j < hi \<longrightarrow> y \<le> fst (a ! j))"
proof (intro conjI allI impI)
  fix j :: nat
  assume "lo \<le> int j \<and> int j < bisect_left a (Num y) lo hi"
  then have "fst (a ! nat (int j)) < y"
    using bisect_left_split [OF assms, of y] by blast
  then show "fst (a ! j) < y" by simp
next
  fix j :: nat
  assume "bisect_left a (Num y) lo hi \<le> int j \<and> int j < hi"
  then have "y \<le> fst (a ! nat (int j))"
    using bisect_left_split [OF assms, of y] by blast
  then show "y \<le> fst (a ! j)" by simp
qed

lemma bisect_left_between:
  assumes s: "sorted_wrt (<) (map fst a)" and k: "Suc k < length a"
    and lo: "fst (a ! k) < y" and hi: "y < fst (a ! Suc k)"
  shows "bisect_left a (Num y) 0 (int (length a) - 1) = int (Suc k)"
proof -
  define r where "r = bisect_left a (Num y) 0 (int (length a) - 1)"
  have srt: "sorted (map fst a)"
    using s by (simp add: strict_sorted_iff)
  have le: "0 \<le> int (length a) - 1" using k by (cases a) auto
  have rng: "0 \<le> r \<and> r \<le> int (length a) - 1"
    unfolding r_def using bisect_left_range [OF le] .
  have sp: "(\<forall>j::nat. int j < r \<longrightarrow> fst (a ! j) < y) \<and>
            (\<forall>j::nat. r \<le> int j \<and> int j < int (length a) - 1 \<longrightarrow> y \<le> fst (a ! j))"
    unfolding r_def using bisect_left_split_nat [OF srt _ le, of y] by simp
  have "\<not> int (Suc k) < r"
  proof
    assume "int (Suc k) < r"
    then have "fst (a ! Suc k) < y" using sp by blast
    then show False using hi by simp
  qed
  moreover have "\<not> r \<le> int k"
  proof
    assume "r \<le> int k"
    moreover have "int k < int (length a) - 1" using k by simp
    ultimately have "y \<le> fst (a ! k)" using sp by blast
    then show False using lo by simp
  qed
  ultimately show ?thesis unfolding r_def by simp
qed

lemma bisect_left_at_sample:
  assumes s: "sorted_wrt (<) (map fst a)" and k: "k < length a"
  shows "bisect_left a (Num (fst (a ! k))) 0 (int (length a) - 1) = int k"
proof -
  define y where "y = fst (a ! k)"
  define r where "r = bisect_left a (Num y) 0 (int (length a) - 1)"
  have srt: "sorted (map fst a)"
    using s by (simp add: strict_sorted_iff)
  have le: "0 \<le> int (length a) - 1" using k by (cases a) auto
  have rng: "0 \<le> r \<and> r \<le> int (length a) - 1"
    unfolding r_def using bisect_left_range [OF le] .
  have sp: "(\<forall>j::nat. int j < r \<longrightarrow> fst (a ! j) < y) \<and>
            (\<forall>j::nat. r \<le> int j \<and> int j < int (length a) - 1 \<longrightarrow> y \<le> fst (a ! j))"
    unfolding r_def using bisect_left_split_nat [OF srt _ le, of y] by simp
  have "\<not> int k < r"
  proof
    assume "int k < r"
    then have "fst (a ! k) < y" using sp by blast
    then show False by (simp add: y_def)
  qed
  moreover have "\<not> r < int k"
  proof
    assume lt: "r < int k"
    have "r \<le> int (nat r) \<and> int (nat r) < int (length a) - 1" using lt rng k by simp
    then have "y \<le> fst (a ! nat r)" using sp by blast
    moreover have "fst (a ! nat r) < fst (a ! k)"
      using strict_years_nth [OF s, of "nat r" k] lt rng k by simp
    ultimately show False by (simp add: y_def)
  qed
  ultimately show ?thesis unfolding r_def y_def by simp
qed

lemma bisect_left_before_first:
  assumes srt: "sorted (map fst a)" and ne: "a \<noteq> []" and y: "y \<le> fst (a ! 0)"
  shows "bisect_left a (Num y) 0 (int (length a) - 1) = 0"
proof -
  define r where "r = bisect_left a (Num y) 0 (int (length a) - 1)"
  have n: "0 < length a" using ne by simp
  have le: "0 \<le> int (length a) - 1" using n by simp
  have rng: "0 \<le> r \<and> r \<le> int (length a) - 1"
    unfolding r_def using bisect_left_range [OF le] .
  have sp: "(\<forall>j::nat. int j < r \<longrightarrow> fst (a ! j) < y)"
    unfolding r_def using bisect_left_split_nat [OF srt _ le, of y] by simp
  have "\<not> 0 < r"
  proof
    assume "0 < r"
    then have "int 0 < r" by simp
    then have "fst (a ! 0) < y" using sp by blast
    then show False using y by simp
  qed
  then show ?thesis using rng unfolding r_def by simp
qed

lemma bisect_left_after_last:
  assumes srt: "sorted (map fst a)" and ne: "a \<noteq> []"
    and y: "fst (a ! (length a - 1)) < y"
  shows "bisect_left a (Num y) 0 (int (length a) - 1) = int (length a) - 1"
proof -
  define r where "r = bisect_left a (Num y) 0 (int (length a) - 1)"
  have n: "0 < length a" using ne by simp
  have le: "0 \<le> int (length a) - 1" using n by simp
  have rng: "0 \<le> r \<and> r \<le> int (length a) - 1"
    unfolding r_def using bisect_left_range [OF le] .
  have sp: "(\<forall>j::nat. r \<le> int j \<and> int j < int (length a) - 1 \<longrightarrow> y \<le> fst (a ! j))"
    unfolding r_def using bisect_left_split_nat [OF srt _ le, of y] by simp
  have "\<not> r < int (length a) - 1"
  proof
    assume lt: "r < int (length a) - 1"
    have "r \<le> int (nat r) \<and> int (nat r) < int (length a) - 1" using lt rng by simp
    then have "y \<le> fst (a ! nat r)" using sp by blast
    moreover have "fst (a ! nat r) \<le> fst (a ! (length a - 1))"
      using sorted_years_nth [OF srt, of "nat r" "length a - 1"] lt rng n by simp
    ultimately show False using y by simp
  qed
  then show ?thesis using rng unfolding r_def by simp
qed

section \<open>Claims about the interpolation\<close>

text \<open>
  C6.  On a series with at least two samples and strictly ascending years, a query year
  equal to the year of a sample yields exactly the value of that sample.
\<close>

theorem interpolateValues_at_sample:
  assumes "sorted_wrt (<) (map fst values)" and "2 \<le> length values"
    and "k < length values"
  shows "interpolateValues values (Num (fst (values ! k))) = Inr (Num (snd (values ! k)))"
proof -
  have i: "bisect_left values (Num (fst (values ! k))) 0 (int (length values) - 1) = int k"
    using bisect_left_at_sample [OF assms(1) assms(3)] .
  have ne: "values \<noteq> []" using assms(2) by auto
  show ?thesis
  proof (cases k)
    case 0
    then show ?thesis using ne unfolding interpolateValues_def i Let_def by simp
  next
    case (Suc m)
    have d: "fst (values ! m) < fst (values ! Suc m)"
      using strict_years_nth [OF assms(1), of m "Suc m"] assms(3) Suc by simp
    have i1: "nat (int (Suc m)) = Suc m" "nat (int (Suc m) - 1) = m" "0 < int (Suc m)"
      by simp_all
    have i': "bisect_left values (Num (fst (values ! Suc m))) 0 (int (length values) - 1)
        = int (Suc m)"
      using i Suc by simp
    have "interpolateValues values (Num (fst (values ! Suc m))) = Inr (Num (snd (values ! Suc m)))"
      using ne d unfolding interpolateValues_def i' Let_def i1
      by (simp add: jsdiv_def jssub_def jsadd_def jsmul_def)
    then show ?thesis using Suc by simp
  qed
qed

theorem interpolateValues_at_sample_witness:
  "interpolateValues [(1800, 100), (1850, 200), (1900, 300)] (Num 1850) = Inr (Num 200)"
  using interpolateValues_at_sample [of "[(1800, 100), (1850, 200), (1900, 300)]" 1]
  by simp

text \<open>
  C7.  On a non-empty series sorted ascending by year, every query year less than or equal
  to the first sample's year yields the first sample's value.
\<close>

theorem interpolateValues_before_first:
  assumes "sorted (map fst values)" and "values \<noteq> []" and "year \<le> fst (hd values)"
  shows "interpolateValues values (Num year) = Inr (Num (snd (hd values)))"
proof -
  have h: "hd values = values ! 0" using assms(2) by (simp add: hd_conv_nth)
  have i: "bisect_left values (Num year) 0 (int (length values) - 1) = 0"
    using bisect_left_before_first [OF assms(1) assms(2)] assms(3) h by simp
  show ?thesis using assms(2) h unfolding interpolateValues_def i Let_def by simp
qed

theorem interpolateValues_before_first_witness:
  "interpolateValues [(1800, 100), (1850, 200), (1900, 300)] (Num 1700) = Inr (Num 100)"
  using interpolateValues_before_first [of "[(1800, 100), (1850, 200), (1900, 300)]" 1700]
  by simp

section \<open>Properties of the page's functions\<close>

lemma displayYear_pVals: "pVals (snd (displayYear nations year s)) = pVals s"
  by (simp add: displayYear_def split: sum.splits)

lemma displayYear_schedules: "schedules (snd (displayYear nations year s)) = schedules s"
  by (simp add: displayYear_def split: sum.splits)

lemma displayYear_next_id: "next_id (snd (displayYear nations year s)) = next_id s"
  by (simp add: displayYear_def split: sum.splits)

lemma settle_pVals: "pVals (settle r) = pVals (snd r)"
  by (simp add: settle_def split: prod.splits completion.splits)

lemma settle_schedules: "schedules (settle r) = schedules (snd r)"
  by (simp add: settle_def split: prod.splits completion.splits)

lemma settle_next_id: "next_id (settle r) = next_id (snd r)"
  by (simp add: settle_def split: prod.splits completion.splits)

lemma settle_display: "display (settle r) = display (snd r)"
  by (simp add: settle_def split: prod.splits completion.splits)

lemma tweenYear_fn_pVals:
  "pVals (snd (tweenYear_fn nations a t s)) =
     (pVals s)\<lparr>currTween := jsadd t (lastTween (pVals s)),
               currYear := Math_round (interpolateNumber a (Num 2009) (jsadd t (lastTween (pVals s))))\<rparr>"
  by (simp add: tweenYear_fn_def Let_def displayYear_pVals)

lemma tweenYear_fn_schedules: "schedules (snd (tweenYear_fn nations a t s)) = schedules s"
  by (simp add: tweenYear_fn_def Let_def displayYear_schedules)

lemma tweenYear_fn_next_id: "next_id (snd (tweenYear_fn nations a t s)) = next_id s"
  by (simp add: tweenYear_fn_def Let_def displayYear_next_id)

lemma interpolateNumber_NaN: "interpolateNumber a b NaN = NaN"
  by (simp add: interpolateNumber_def jsadd_def jsmul_def split: option.splits)

lemma on_start_pVals:
  "pVals (snd (on_start nations s)) = (pVals s)\<lparr>currTween := NaN, currYear := NaN\<rparr>"
  by (simp add: on_start_def tweenYear_fn_pVals jsadd_def interpolateNumber_NaN Math_round_def)

lemma on_start_schedules: "schedules (snd (on_start nations s)) = schedules s"
  by (simp add: on_start_def tweenYear_fn_schedules)

lemma on_start_next_id: "next_id (snd (on_start nations s)) = next_id s"
  by (simp add: on_start_def tweenYear_fn_next_id)

lemma tweenYear_after_on_start: "tweenYear (snd (on_start nations s)) = Num 1800"
  by (simp add: tweenYear_def on_start_pVals js_or_def falsy_def)

lemma preempt_schedules:
  "schedules (preempt k os s) =
     filter (\<lambda>sc. \<forall>x \<in> set os. sid x = sid sc \<longrightarrow> sid x = k \<or> (phase x \<noteq> RUNNING \<and> \<not> sid x < k))
       (schedules s)"
proof (induction os arbitrary: s)
  case Nil
  then show ?case by simp
next
  case (Cons a os)
  show ?case
    by (auto simp: Cons.IH on_interrupt_def intro!: filter_cong)
qed

lemma preempt_next_id: "next_id (preempt k os s) = next_id s"
  by (induction os arbitrary: s) (auto simp: on_interrupt_def)

lemma preempt_pVals:
  "pVals (preempt k os s) =
     (if \<exists>x \<in> set os. sid x \<noteq> k \<and> phase x = RUNNING
      then (pVals s)\<lparr>lastTween := currTween (pVals s)\<rparr> else pVals s)"
proof (induction os arbitrary: s)
  case Nil
  then show ?case by simp
next
  case (Cons a os)
  show ?case
    by (auto simp: Cons.IH on_interrupt_def)
qed

lemma d3_interrupt_fold:
  "schedules (foldl (\<lambda>s' sc. if active sc then on_interrupt s' else s') s scs) = schedules s"
  by (induction scs arbitrary: s) (auto simp: on_interrupt_def)

lemma d3_interrupt_fold_next_id:
  "next_id (foldl (\<lambda>s' sc. if active sc then on_interrupt s' else s') s scs) = next_id s"
  by (induction scs arbitrary: s) (auto simp: on_interrupt_def)

lemma d3_interrupt_fold_pVals:
  "pVals (foldl (\<lambda>s' sc. if active sc then on_interrupt s' else s') s scs) =
     (if \<exists>sc \<in> set scs. active sc then (pVals s)\<lparr>lastTween := currTween (pVals s)\<rparr> else pVals s)"
  by (induction scs arbitrary: s) (auto simp: on_interrupt_def)

lemma stopPlaying_schedules: "schedules (stopPlaying s) = []"
  by (simp add: stopPlaying_def d3_interrupt_def d3_interrupt_fold)

lemma stopPlaying_pVals:
  "pVals (stopPlaying s) =
     (if \<exists>sc \<in> set (schedules s). active sc
      then (pVals s)\<lparr>lastTween := currTween (pVals s)\<rparr> else pVals s)"
  by (simp add: stopPlaying_def d3_interrupt_def d3_interrupt_fold_pVals)

lemma inv_startPlaying: "inv s \<Longrightarrow> inv (startPlaying s)"
  by (auto simp: inv_def startPlaying_def transition_def active_def less_Suc_eq)

lemma inv_stopPlaying: "inv (stopPlaying s)"
  by (simp add: inv_def stopPlaying_schedules)

lemma inv_d3_start:
  assumes i: "inv s"
  shows "inv (d3_start nations k s)"
proof (cases "find (\<lambda>sc. sid sc = k \<and> phase sc = SCHEDULED) (schedules s)")
  case None
  then show ?thesis using i by (simp add: d3_start_def)
next
  case self: (Some self)
  show ?thesis
  proof (cases "find (\<lambda>sc. phase sc = STARTED) (schedules s)")
    case (Some other)
    then show ?thesis using i self by (simp add: d3_start_def)
  next
    case None
    then have nostarted: "\<forall>sc \<in> set (schedules s). phase sc \<noteq> STARTED"
      by (simp add: find_None_iff)
    define s1 where "s1 = preempt k (schedules s) s"
    have sub: "set (schedules s1) \<subseteq> set (schedules s)"
      by (auto simp: s1_def preempt_schedules)
    have idle: "\<not> active sc" if "sc \<in> set (schedules s1)" "sid sc \<noteq> k" for sc
    proof -
      have "sc \<in> set (schedules s)" using that sub by blast
      moreover have "phase sc \<noteq> RUNNING"
        using that \<open>sc \<in> set (schedules s)\<close> by (auto simp: s1_def preempt_schedules)
      ultimately show ?thesis using nostarted by (simp add: active_def)
    qed
    have d1: "distinct (map sid (schedules s1))"
      using i by (simp add: s1_def preempt_schedules inv_def distinct_map_filter)
    have n1: "next_id s1 = next_id s" by (simp add: s1_def preempt_next_id)
    obtain r s2 where os: "on_start nations s1 = (r, s2)" by (cases "on_start nations s1")
    have sch2: "schedules s2 = schedules s1"
      using on_start_schedules [of nations s1] os by simp
    have n2: "next_id s2 = next_id s"
      using on_start_next_id [of nations s1] os n1 by simp
    have tw: "tweenYear s2 = Num 1800"
      using tweenYear_after_on_start [of nations s1] os by simp
    have lt: "sid sc < next_id s" if "sc \<in> set (schedules s1)" for sc
      using that sub i by (auto simp: inv_def)
    show ?thesis
    proof (cases r)
      case Normal
      define upd :: "sched \<Rightarrow> sched" where "upd = (\<lambda>sc. if sid sc = k then sc\<lparr>phase := STARTED, tween := Num 1800\<rparr> else sc)"
      have res: "d3_start nations k s = s2\<lparr>schedules := map upd (schedules s1)\<rparr>"
        using self None os Normal tw sch2 by (simp add: d3_start_def s1_def upd_def)
      have sid_upd: "sid (upd sc) = sid sc" for sc by (simp add: upd_def)
      have act_upd: "active (upd sc) \<Longrightarrow> sc \<in> set (schedules s1) \<Longrightarrow> sid sc = k" for sc
        using idle [of sc] by (auto simp: upd_def split: if_splits)
      have inj: "inj_on sid (set (schedules s1))"
        using d1 by (simp add: distinct_map)
      have a: "distinct (map sid (map upd (schedules s1)))"
        using d1 by (simp add: comp_def sid_upd)
      have b: "sid x < next_id s2 \<and> (active x \<longrightarrow> tween x = Num 1800)"
        if "x \<in> set (map upd (schedules s1))" for x
      proof -
        have "x \<in> upd ` set (schedules s1)" using that by simp
        then obtain sc where sc: "sc \<in> set (schedules s1)" "x = upd sc" by (rule imageE)
        show ?thesis using sc lt [of sc] idle [of sc] n2 by (auto simp: upd_def)
      qed
      have c: "x = y"
        if "x \<in> set (map upd (schedules s1))" "y \<in> set (map upd (schedules s1))"
           "active x" "active y" for x y
      proof -
        have "x \<in> upd ` set (schedules s1)" using that by simp
        then obtain sc where sc: "sc \<in> set (schedules s1)" "x = upd sc" by (rule imageE)
        have "y \<in> upd ` set (schedules s1)" using that by simp
        then obtain sc' where sc': "sc' \<in> set (schedules s1)" "y = upd sc'" by (rule imageE)
        have "sid sc = k" "sid sc' = k" using act_upd sc sc' that by auto
        then have "sc = sc'" using inj sc sc' by (auto dest: inj_onD)
        then show ?thesis using sc sc' by simp
      qed
      show ?thesis unfolding res inv_def using a b c by auto
    next
      case (Throw e)
      have res: "d3_start nations k s =
          s2\<lparr>schedules := filter (\<lambda>sc. sid sc \<noteq> k) (schedules s1), uncaught := uncaught s2 @ [e]\<rparr>"
        using self None os Throw sch2 by (simp add: d3_start_def s1_def)
      show ?thesis unfolding res inv_def using d1 idle lt n2
        by (auto simp: distinct_map_filter)
    qed
  qed
qed

lemma inv_d3_tick:
  assumes i: "inv s"
  shows "inv (d3_tick nations k elapsed s)"
proof (cases "find (\<lambda>sc. sid sc = k \<and> active sc) (schedules s)")
  case None
  then show ?thesis using i by (simp add: d3_tick_def)
next
  case (Some sc)
  then have sc: "sc \<in> set (schedules s)" "sid sc = k" "active sc"
    by (auto simp: find_Some_iff)
  have only: "x = sc" if "x \<in> set (schedules s)" "sid x = k" for x
    using i sc that by (auto simp: inv_def distinct_map dest: inj_onD)
  have quiet: "\<not> active x" if "x \<in> set (schedules s)" "sid x \<noteq> k" for x
    using i sc that unfolding inv_def by blast
  show ?thesis
  proof (cases "jslt (Num elapsed) (sduration sc)")
    case True
    define upd :: "sched \<Rightarrow> sched" where "upd = (\<lambda>sc'. if sid sc' = k then sc'\<lparr>phase := RUNNING\<rparr> else sc')"
    define s1 where "s1 = s\<lparr>schedules := map upd (schedules s)\<rparr>"
    have res: "d3_tick nations k elapsed s =
        settle (tweenYear_fn nations (tween sc) (jsdiv (Num elapsed) (sduration sc)) s1)"
      using Some True by (simp add: d3_tick_def s1_def upd_def)
    have sch: "schedules (d3_tick nations k elapsed s) = map upd (schedules s)"
      by (simp add: res settle_schedules tweenYear_fn_schedules s1_def)
    have nid: "next_id (d3_tick nations k elapsed s) = next_id s"
      by (simp add: res settle_next_id tweenYear_fn_next_id s1_def)
    have sid_upd: "sid (upd x) = sid x" for x by (simp add: upd_def)
    have a: "distinct (map sid (map upd (schedules s)))"
      using i by (simp add: comp_def sid_upd inv_def)
    have b: "sid x < next_id s \<and> (active x \<longrightarrow> tween x = Num 1800)"
      if "x \<in> set (map upd (schedules s))" for x
    proof -
      have "x \<in> upd ` set (schedules s)" using that by simp
        then obtain y where y: "y \<in> set (schedules s)" "x = upd y" by (rule imageE)
      show ?thesis
      proof (cases "sid y = k")
        case True
        then have "y = sc" using only y by simp
        then show ?thesis using y sc i by (auto simp: upd_def inv_def)
      next
        case False
        then show ?thesis using y quiet [of y] i by (auto simp: upd_def inv_def)
      qed
    qed
    have c: "x = y"
      if "x \<in> set (map upd (schedules s))" "y \<in> set (map upd (schedules s))"
         "active x" "active y" for x y
    proof -
      have "x \<in> upd ` set (schedules s)" using that by simp
        then obtain x' where x': "x' \<in> set (schedules s)" "x = upd x'" by (rule imageE)
      have "y \<in> upd ` set (schedules s)" using that by simp
        then obtain y' where y': "y' \<in> set (schedules s)" "y = upd y'" by (rule imageE)
      have "sid x' = k" using quiet [of x'] x' that by (auto simp: upd_def split: if_splits)
      moreover have "sid y' = k" using quiet [of y'] y' that by (auto simp: upd_def split: if_splits)
      ultimately have "x' = sc" "y' = sc" using only [of x'] only [of y'] x' y' by simp_all
      then have "x' = y'" by simp
      then show ?thesis using x' y' by simp
    qed
    show ?thesis unfolding inv_def sch nid using a b c by auto
  next
    case False
    define s1 where "s1 = s\<lparr>schedules := filter (\<lambda>sc'. sid sc' \<noteq> k) (schedules s)\<rparr>"
    obtain r s2 where tw: "tweenYear_fn nations (tween sc) (Num 1) s1 = (r, s2)"
      by (cases "tweenYear_fn nations (tween sc) (Num 1) s1")
    have sch2: "schedules s2 = filter (\<lambda>sc'. sid sc' \<noteq> k) (schedules s)"
      using tweenYear_fn_schedules [of nations "tween sc" "Num 1" s1] tw by (simp add: s1_def)
    have n2: "next_id s2 = next_id s"
      using tweenYear_fn_next_id [of nations "tween sc" "Num 1" s1] tw by (simp add: s1_def)
    have res: "d3_tick nations k elapsed s =
        (case r of Throw e \<Rightarrow> s2\<lparr>uncaught := uncaught s2 @ [e]\<rparr> | Normal \<Rightarrow> on_end s2)"
      using Some False tw by (simp add: d3_tick_def s1_def)
    have sch: "schedules (d3_tick nations k elapsed s) = filter (\<lambda>sc'. sid sc' \<noteq> k) (schedules s)"
      by (simp add: res sch2 on_end_def enableInteraction_def split: completion.splits)
    have nid: "next_id (d3_tick nations k elapsed s) = next_id s"
      by (simp add: res n2 on_end_def enableInteraction_def split: completion.splits)
    show ?thesis unfolding inv_def sch nid using i quiet
      by (auto simp: inv_def distinct_map_filter)
  qed
qed

lemma inv_step: "inv s \<Longrightarrow> inv (step nations box s ev)"
proof (cases ev)
  case ClickPlay
  assume "inv s" then show ?thesis using ClickPlay by (simp add: inv_startPlaying)
next
  case ClickStop
  then show ?thesis by (simp add: inv_stopPlaying)
next
  case (TimerStart k)
  assume "inv s" then show ?thesis using TimerStart by (simp add: inv_d3_start)
next
  case (TimerTick k e)
  assume "inv s" then show ?thesis using TimerTick by (simp add: inv_d3_tick)
next
  case Mouseover
  assume "inv s" then show ?thesis using Mouseover by (simp add: inv_def enableInteraction_def)
next
  case (Mousemove px)
  assume "inv s" then show ?thesis using Mousemove
    by (simp add: inv_def settle_schedules settle_next_id mousemove_def
        displayYear_schedules displayYear_next_id)
next
  case (Slide v)
  assume "inv s" then show ?thesis using Slide
    by (simp add: inv_def settle_schedules settle_next_id slide_def Let_def
        displayYear_schedules displayYear_next_id)
qed

lemma inv_run: "inv s \<Longrightarrow> inv (run nations box s evs)"
  unfolding run_def by (induction evs arbitrary: s) (simp_all add: inv_step)

lemma inv_init: "init nations = Inr s \<Longrightarrow> inv s"
  by (auto simp: init_def inv_def split: sum.splits)

lemma one_active:
  assumes "inv s"
  shows "length (filter active (schedules s)) \<le> 1"
proof -
  have d: "distinct (filter active (schedules s))"
    using assms by (simp add: inv_def distinct_map)
  have "card (set (filter active (schedules s))) \<le> Suc 0"
    using assms by (subst card_le_Suc0_iff_eq) (auto simp: inv_def)
  then show ?thesis using distinct_card [OF d] by simp
qed

lemma interpolateValues_total: "values \<noteq> [] \<Longrightarrow> \<exists>v. interpolateValues values year = Inr v"
  by (simp add: interpolateValues_def Let_def)

lemma interpolateData_total:
  "drawable nations \<Longrightarrow> \<exists>frame. interpolateData nations year = Inr frame"
proof (induction nations)
  case Nil
  then show ?case by simp
next
  case (Cons d ds)
  then have ne: "income d \<noteq> []" "population d \<noteq> []" "lifeExpectancy d \<noteq> []"
    and rest: "drawable ds" by (simp_all add: drawable_def)
  obtain i p l where "interpolateValues (income d) year = Inr i"
    "interpolateValues (population d) year = Inr p"
    "interpolateValues (lifeExpectancy d) year = Inr l"
    using ne interpolateValues_total by meson
  then have "\<exists>x. interpolateDatum d year = Inr x" by (simp add: interpolateDatum_def)
  moreover have "\<exists>xs. interpolateData ds year = Inr xs" using Cons.IH rest by simp
  ultimately show ?case by auto
qed

lemma displayYear_Normal: "drawable nations \<Longrightarrow> fst (displayYear nations year s) = Normal"
  using interpolateData_total [of nations year] by (auto simp: displayYear_def)

lemma on_start_Normal: "drawable nations \<Longrightarrow> fst (on_start nations s) = Normal"
  by (simp add: on_start_def tweenYear_fn_def Let_def displayYear_Normal)

lemma d3_start_single:
  assumes "schedules s = [sc]" "sid sc = k" "phase sc = SCHEDULED" "drawable nations"
  shows "schedules (d3_start nations k s) = [sc\<lparr>phase := STARTED, tween := Num 1800\<rparr>]"
    and "pVals (d3_start nations k s) = (pVals s)\<lparr>currTween := NaN, currYear := NaN\<rparr>"
    and "next_id (d3_start nations k s) = next_id s"
proof -
  have p: "preempt k (schedules s) s = s" using assms by simp
  obtain r s2 where os: "on_start nations s = (r, s2)" by (cases "on_start nations s")
  have r: "r = Normal" using on_start_Normal [OF assms(4), of s] os by simp
  have s2: "schedules s2 = [sc]" "pVals s2 = (pVals s)\<lparr>currTween := NaN, currYear := NaN\<rparr>"
    "tweenYear s2 = Num 1800" "next_id s2 = next_id s"
    using on_start_schedules [of nations s] on_start_pVals [of nations s]
      tweenYear_after_on_start [of nations s] on_start_next_id [of nations s] os assms by simp_all
  have res: "d3_start nations k s =
      s2\<lparr>schedules := [sc\<lparr>phase := STARTED, tween := Num 1800\<rparr>]\<rparr>"
    using assms os r s2 p by (simp add: d3_start_def)
  show "schedules (d3_start nations k s) = [sc\<lparr>phase := STARTED, tween := Num 1800\<rparr>]"
    and "pVals (d3_start nations k s) = (pVals s)\<lparr>currTween := NaN, currYear := NaN\<rparr>"
    and "next_id (d3_start nations k s) = next_id s"
    using res s2 by simp_all
qed

lemma d3_tick_single:
  assumes "schedules s = [sc]" "sid sc = k" "active sc" "sduration sc = Num D" "0 \<le> e" "e < D"
  shows "schedules (d3_tick nations k e s) = [sc\<lparr>phase := RUNNING\<rparr>]"
    and "pVals (d3_tick nations k e s) =
      (pVals s)\<lparr>currTween := jsadd (Num (e / D)) (lastTween (pVals s)),
                currYear := Math_round (interpolateNumber (tween sc) (Num 2009)
                                          (jsadd (Num (e / D)) (lastTween (pVals s))))\<rparr>"
proof -
  have f: "find (\<lambda>sc. sid sc = k \<and> active sc) (schedules s) = Some sc" using assms by simp
  have lt: "jslt (Num e) (sduration sc)" using assms by (simp add: jslt_def)
  have dv: "jsdiv (Num e) (sduration sc) = Num (e / D)" using assms by (simp add: jsdiv_def)
  have res: "d3_tick nations k e s =
      settle (tweenYear_fn nations (tween sc) (Num (e / D)) (s\<lparr>schedules := [sc\<lparr>phase := RUNNING\<rparr>]\<rparr>))"
    using f lt dv assms by (simp add: d3_tick_def)
  show "schedules (d3_tick nations k e s) = [sc\<lparr>phase := RUNNING\<rparr>]"
    by (simp add: res settle_schedules tweenYear_fn_schedules)
  show "pVals (d3_tick nations k e s) =
      (pVals s)\<lparr>currTween := jsadd (Num (e / D)) (lastTween (pVals s)),
                currYear := Math_round (interpolateNumber (tween sc) (Num 2009)
                                          (jsadd (Num (e / D)) (lastTween (pVals s))))\<rparr>"
    by (simp add: res settle_pVals tweenYear_fn_pVals)
qed

lemma play_idle:
  assumes idle: "schedules s = []" and L: "lastTween (pVals s) = Num L" and "L < 1"
    and dr: "drawable nations" and e: "0 \<le> e" "e < duration * (1 - L)"
  shows "pVals (run nations box s [ClickPlay, TimerStart (next_id s), TimerTick (next_id s) e]) =
    (pVals s)\<lparr>currTween := Num (e / (duration * (1 - L)) + L),
              currYear := Math_round (Num (1800 + (2009 - 1800) * (e / (duration * (1 - L)) + L)))\<rparr>"
proof -
  define k where "k = next_id s"
  define D where "D = duration * (1 - L)"
  define sc where "sc = \<lparr>sid = k, phase = SCHEDULED, sduration = Num D, tween = Undefined\<rparr>"
  define s1 where "s1 = startPlaying s"
  define s2 where "s2 = d3_start nations k s1"
  have s1: "schedules s1 = [sc]" "pVals s1 = pVals s"
    using idle L
    by (simp_all add: s1_def sc_def k_def D_def startPlaying_def transition_def
        transition_duration_def jssub_def jsmul_def algebra_simps)
  have s2: "schedules s2 = [sc\<lparr>phase := STARTED, tween := Num 1800\<rparr>]"
    "pVals s2 = (pVals s)\<lparr>currTween := NaN, currYear := NaN\<rparr>"
    using d3_start_single [OF s1(1) _ _ dr, of k] s1(2) by (simp_all add: s2_def sc_def)
  have s3: "pVals (d3_tick nations k e s2) =
      (pVals s2)\<lparr>currTween := jsadd (Num (e / D)) (lastTween (pVals s2)),
                currYear := Math_round (interpolateNumber (Num 1800) (Num 2009)
                                          (jsadd (Num (e / D)) (lastTween (pVals s2))))\<rparr>"
    using d3_tick_single(2) [OF s2(1), of k D e nations] e
    by (simp add: sc_def active_def D_def)
  have "run nations box s [ClickPlay, TimerStart (next_id s), TimerTick (next_id s) e]
      = d3_tick nations k e s2"
    by (simp add: run_def s2_def s1_def k_def)
  then show ?thesis
    using s3 s2(2) L
    by (simp add: jsadd_def interpolateNumber_def jssub_def jsmul_def D_def)
qed

lemma init_scenario: "init scenario_nations = Inr scenario_init"
  by code_simp

lemma find_append_None: "find P xs = None \<Longrightarrow> find P (xs @ ys) = find P ys"
  by (induction xs) (auto split: if_splits)

lemma d3_start_pVals_running:
  assumes f: "find (\<lambda>sc. sid sc = k \<and> phase sc = SCHEDULED) (schedules s) = Some self"
    and n: "find (\<lambda>sc. phase sc = STARTED) (schedules s) = None"
  shows "pVals (d3_start nations k s) =
           (pVals (preempt k (schedules s) s))\<lparr>currTween := NaN, currYear := NaN\<rparr>"
    and "set (schedules (d3_start nations k s)) \<subseteq>
           (\<lambda>sc. if sid sc = k then sc\<lparr>phase := STARTED, tween := Num 1800\<rparr> else sc) `
             set (schedules (preempt k (schedules s) s))"
proof -
  define s1 where "s1 = preempt k (schedules s) s"
  obtain r s2 where os: "on_start nations s1 = (r, s2)" by (cases "on_start nations s1")
  have s2: "schedules s2 = schedules s1" "pVals s2 = (pVals s1)\<lparr>currTween := NaN, currYear := NaN\<rparr>"
    "tweenYear s2 = Num 1800"
    using on_start_schedules [of nations s1] on_start_pVals [of nations s1]
      tweenYear_after_on_start [of nations s1] os by simp_all
  show "pVals (d3_start nations k s) =
           (pVals (preempt k (schedules s) s))\<lparr>currTween := NaN, currYear := NaN\<rparr>"
    using f n os s2 by (cases r) (simp_all add: d3_start_def s1_def)
  show "set (schedules (d3_start nations k s)) \<subseteq>
           (\<lambda>sc. if sid sc = k then sc\<lparr>phase := STARTED, tween := Num 1800\<rparr> else sc) `
             set (schedules (preempt k (schedules s) s))"
    using f n os s2 by (cases r) (auto simp: d3_start_def s1_def)
qed

lemma restart_replaces:
  assumes i: "inv s" and old: "old \<in> set (schedules s)" "phase old = RUNNING"
  shows "sid old \<notin> sid ` set (schedules (run nations box s [ClickPlay, TimerStart (next_id s)]))"
    and "lastTween (pVals (run nations box s [ClickPlay, TimerStart (next_id s)])) = currTween (pVals s)"
proof -
  define k where "k = next_id s"
  define new where "new = \<lparr>sid = k, phase = SCHEDULED,
      sduration = transition_duration (pVals s), tween = Undefined\<rparr>"
  define s1 where "s1 = startPlaying s"
  have s1: "schedules s1 = schedules s @ [new]" "pVals s1 = pVals s"
    by (simp_all add: s1_def startPlaying_def transition_def new_def k_def)
  have below: "sid sc < k" if "sc \<in> set (schedules s)" for sc
    using i that by (simp add: inv_def k_def)
  have oldk: "sid old \<noteq> k" using below [OF old(1)] by simp
  have act: "active old" using old by (simp add: active_def)
  have nost: "phase sc \<noteq> STARTED" if "sc \<in> set (schedules s)" for sc
  proof
    assume "phase sc = STARTED"
    then have "active sc" by (simp add: active_def)
    then have "sc = old" using i that old(1) act unfolding inv_def by blast
    then show False using \<open>phase sc = STARTED\<close> old(2) by simp
  qed
  have f: "find (\<lambda>sc. sid sc = k \<and> phase sc = SCHEDULED) (schedules s1) = Some new"
  proof -
    have "find (\<lambda>sc. sid sc = k \<and> phase sc = SCHEDULED) (schedules s) = None"
      using below by (auto simp: find_None_iff)
    then show ?thesis by (simp add: s1 find_append_None new_def)
  qed
  have n: "find (\<lambda>sc. phase sc = STARTED) (schedules s1) = None"
    using nost by (auto simp: find_None_iff s1 new_def)
  have run: "run nations box s [ClickPlay, TimerStart (next_id s)] = d3_start nations k s1"
    by (simp add: run_def s1_def k_def)
  have pre: "sid old \<notin> sid ` set (schedules (preempt k (schedules s1) s1))"
    using old oldk by (auto simp: preempt_schedules s1)
  have "sid old \<notin> sid ` set (schedules (d3_start nations k s1))"
  proof
    assume "sid old \<in> sid ` set (schedules (d3_start nations k s1))"
    then obtain x where x: "x \<in> set (schedules (d3_start nations k s1))" "sid x = sid old"
      by auto
    then obtain y where y: "y \<in> set (schedules (preempt k (schedules s1) s1))"
      "x = (if sid y = k then y\<lparr>phase := STARTED, tween := Num 1800\<rparr> else y)"
      using d3_start_pVals_running(2) [OF f n, of nations] by blast
    then have "sid y = sid old" using x by (simp split: if_splits)
    then have "sid old \<in> sid ` set (schedules (preempt k (schedules s1) s1))"
      using y(1) by (metis imageI)
    then show False using pre by simp
  qed
  then show "sid old \<notin> sid ` set (schedules (run nations box s [ClickPlay, TimerStart (next_id s)]))"
    by (simp add: run)
  have "pVals (preempt k (schedules s1) s1) = (pVals s)\<lparr>lastTween := currTween (pVals s)\<rparr>"
    using old oldk by (auto simp: preempt_pVals s1)
  then show "lastTween (pVals (run nations box s [ClickPlay, TimerStart (next_id s)])) = currTween (pVals s)"
    using d3_start_pVals_running(1) [OF f n, of nations] by (simp add: run)
qed

lemma interpolateNumber_years:
  "interpolateNumber (Num 1800) (Num 2009) t = jsadd (Num 1800) (jsmul t (Num (2009 - 1800)))"
  by (simp add: interpolateNumber_def jsadd_def jsmul_def jssub_def split: option.splits)

lemma d3_tick_pVals:
  assumes "find (\<lambda>sc. sid sc = k \<and> active sc) (schedules s) = Some sc"
  shows "\<exists>t. pVals (d3_tick nations k e s) =
           (pVals s)\<lparr>currTween := jsadd t (lastTween (pVals s)),
                     currYear := Math_round (interpolateNumber (tween sc) (Num 2009)
                                               (jsadd t (lastTween (pVals s))))\<rparr>"
proof (cases "jslt (Num e) (sduration sc)")
  case True
  then show ?thesis using assms
    by (auto simp: d3_tick_def settle_pVals tweenYear_fn_pVals)
next
  case False
  define s1 where "s1 = s\<lparr>schedules := filter (\<lambda>sc'. sid sc' \<noteq> k) (schedules s)\<rparr>"
  obtain r s2 where tw: "tweenYear_fn nations (tween sc) (Num 1) s1 = (r, s2)"
    by (cases "tweenYear_fn nations (tween sc) (Num 1) s1")
  have p2: "pVals s2 = (pVals s)\<lparr>currTween := jsadd (Num 1) (lastTween (pVals s)),
       currYear := Math_round (interpolateNumber (tween sc) (Num 2009)
                                 (jsadd (Num 1) (lastTween (pVals s))))\<rparr>"
    using tweenYear_fn_pVals [of nations "tween sc" "Num 1" s1] tw by (simp add: s1_def)
  have "pVals (d3_tick nations k e s) = pVals s2"
    using assms False tw
    by (cases r) (simp_all add: d3_tick_def s1_def on_end_def enableInteraction_def)
  then show ?thesis using p2 by auto
qed

lemma d3_tick_still_active:
  assumes "\<exists>sc \<in> set (schedules (d3_tick nations k e s)). active sc"
  shows "\<exists>sc \<in> set (schedules s). active sc"
proof (cases "find (\<lambda>sc. sid sc = k \<and> active sc) (schedules s)")
  case None
  then show ?thesis using assms by (simp add: d3_tick_def)
next
  case (Some sc)
  then show ?thesis by (auto simp: find_Some_iff)
qed

lemma Math_round_int: "Math_round (Num (of_int z)) = Num (of_int z)"
proof -
  have "\<lfloor>(of_int z :: real) + 1 / 2\<rfloor> = z" by linarith
  then show ?thesis by (simp add: Math_round_def)
qed

lemma stopPlaying_next_id: "next_id (stopPlaying s) = next_id s"
  by (simp add: stopPlaying_def d3_interrupt_def d3_interrupt_fold_next_id)

lemma resume_below_end:
  assumes sch: "schedules s = [sc]" "active sc" and c: "currTween (pVals s) = Num c" "c < 1"
    and dr: "drawable nations" and e: "0 \<le> e" "e < duration * (1 - c)"
  shows "pVals (run nations box s
                  [ClickStop, ClickPlay, TimerStart (next_id s), TimerTick (next_id s) e]) =
    (pVals s)\<lparr>lastTween := Num c,
              currTween := Num (e / (duration * (1 - c)) + c),
              currYear := Math_round (Num (1800 + (2009 - 1800) * (e / (duration * (1 - c)) + c)))\<rparr>"
proof -
  define s1 where "s1 = stopPlaying s"
  have s1: "schedules s1 = []" "pVals s1 = (pVals s)\<lparr>lastTween := Num c\<rparr>" "next_id s1 = next_id s"
    using sch c by (simp_all add: s1_def stopPlaying_schedules stopPlaying_pVals stopPlaying_next_id)
  have l: "lastTween (pVals s1) = Num c" by (simp add: s1)
  have "run nations box s [ClickStop, ClickPlay, TimerStart (next_id s), TimerTick (next_id s) e]
      = run nations box s1 [ClickPlay, TimerStart (next_id s1), TimerTick (next_id s1) e]"
    by (simp add: run_def s1_def stopPlaying_next_id)
  then show ?thesis
    using play_idle [OF s1(1) l c(2) dr e, of box] by (simp add: s1)
qed

section \<open>Claims about playback\<close>

text \<open>
  C2.  A stop followed at once by a start is meant to resume the sweep from the year at
  which it was interrupted.  A resumed sweep adds \<open>lastTween\<close> to a fraction that still
  runs from 0 to 1, so its progress passes 1 (the year passes 2009).  Paused there a second
  time (progress 11/10, year 2030) and started again, the new transition has a negative
  duration, its only tick is the final one, and the year it shows is 2239: the sweep does
  not resume from 2030.
\<close>

theorem second_resume_leaves_range:
  "pVals scenario_paused_again =
     \<lparr>lastTween = Num (11 / 10), currTween = Num (11 / 10), currYear = Num 2030\<rparr> \<and>
   pVals (run scenario_nations scenario_box scenario_paused_again
            [ClickPlay, TimerStart 2, TimerTick 2 0]) =
     \<lparr>lastTween = Num (11 / 10), currTween = Num (21 / 10), currYear = Num 2239\<rparr> \<and>
   label (display (run scenario_nations scenario_box scenario_paused_again
            [ClickPlay, TimerStart 2, TimerTick 2 0])) = Num 2239 \<and>
   schedules (run scenario_nations scenario_box scenario_paused_again
            [ClickPlay, TimerStart 2, TimerTick 2 0]) = []"
  by code_simp

text \<open>
  C3, as stated, fails: \<open>startPlaying\<close> has no guard.  With a sweep running, a click on
  play changes the state (a second transition is queued), and once that transition starts
  the first sweep has been interrupted and \<open>lastTween\<close> has changed from 0 to 1/2.
\<close>

theorem start_while_playing_counterexample:
  "map phase (schedules scenario_playing) = [RUNNING] \<and>
   step scenario_nations scenario_box scenario_playing ClickPlay \<noteq> scenario_playing \<and>
   lastTween (pVals scenario_playing) = Num 0 \<and>
   lastTween (pVals (run scenario_nations scenario_box scenario_playing [ClickPlay, TimerStart 1]))
     = Num (1 / 2)"
  by code_simp

text \<open>
  C3, amended.  In every state the page reaches from its initial state, at most one
  transition has started (is active).  A start request is never ignored: it queues one
  more transition; when that transition starts while a sweep is running, the running sweep
  is removed and its interrupt listener has copied \<open>currTween\<close> into \<open>lastTween\<close>.
\<close>

theorem one_sweep_at_a_time:
  assumes "init nations = Inr s0" and "s = run nations box s0 evs"
  shows "length (filter active (schedules s)) \<le> 1 \<and>
         schedules (step nations box s ClickPlay) =
           schedules s @ [\<lparr>sid = next_id s, phase = SCHEDULED,
                            sduration = transition_duration (pVals s), tween = Undefined\<rparr>] \<and>
         (\<forall>old \<in> set (schedules s). phase old = RUNNING \<longrightarrow>
            sid old \<notin> sid ` set (schedules (run nations box s [ClickPlay, TimerStart (next_id s)])) \<and>
            lastTween (pVals (run nations box s [ClickPlay, TimerStart (next_id s)])) =
              currTween (pVals s))"
proof -
  have i: "inv s" using assms inv_init inv_run by simp
  show ?thesis
    using one_active [OF i] restart_replaces [OF i]
    by (simp add: startPlaying_def transition_def)
qed

theorem one_sweep_at_a_time_witness:
  "init scenario_nations = Inr scenario_init \<and>
   map (\<lambda>sc. (sid sc, phase sc)) (schedules scenario_playing) = [(0, RUNNING)] \<and>
   length (filter active (schedules scenario_playing)) \<le> 1 \<and>
   map sid (schedules (step scenario_nations scenario_box scenario_playing ClickPlay)) = [0, 1] \<and>
   0 \<notin> sid ` set (schedules (run scenario_nations scenario_box scenario_playing
                               [ClickPlay, TimerStart 1])) \<and>
   lastTween (pVals (run scenario_nations scenario_box scenario_playing [ClickPlay, TimerStart 1]))
     = Num (1 / 2)"
proof -
  have h: "init scenario_nations = Inr scenario_init" by code_simp
  have sch: "schedules scenario_playing =
      [\<lparr>sid = 0, phase = RUNNING, sduration = Num 209000, tween = Num 1800\<rparr>]"
    by code_simp
  have nid: "next_id scenario_playing = 1" by code_simp
  have ct: "currTween (pVals scenario_playing) = Num (1 / 2)" by code_simp
  have lt: "lastTween (pVals scenario_playing) = Num 0" by code_simp
  show ?thesis
    using h one_sweep_at_a_time [OF h scenario_playing_def]
    by (simp add: sch nid ct lt transition_duration_def)
qed

text \<open>
  C5, as stated, fails: a tween tick leaves \<open>lastTween\<close> alone.  Half-way through the
  first sweep \<open>currYear\<close> is 1905 while \<open>lastTween\<close> is 0, for which the formula gives
  1800.
\<close>

theorem playback_consistency_counterexample:
  "pVals scenario_playing = \<lparr>lastTween = Num 0, currTween = Num (1 / 2), currYear = Num 1905\<rparr> \<and>
   Math_round (jsadd (Num 1800) (jsmul (lastTween (pVals scenario_playing)) (Num (2009 - 1800))))
     = Num 1800"
  by code_simp

text \<open>
  C5, amended.  In every state reached from the initial state: a tick of a started
  transition leaves \<open>currYear = round(1800 + currTween * (2009 - 1800))\<close> and does not
  change \<open>lastTween\<close>; when the transition is still active after the tick and is then
  interrupted, \<open>currYear = round(1800 + lastTween * (2009 - 1800))\<close>; and after a slider
  scrub to an integer year \<open>v\<close>, \<open>currYear = v = round(1800 + lastTween * (2009 - 1800))\<close>.
\<close>

theorem playback_consistency:
  assumes "init nations = Inr s0" and "s = run nations box s0 evs"
  shows
    "(\<forall>sc \<in> set (schedules s). active sc \<and> sid sc = k \<longrightarrow>
        currYear (pVals (step nations box s (TimerTick k e))) =
          Math_round (jsadd (Num 1800)
            (jsmul (currTween (pVals (step nations box s (TimerTick k e)))) (Num (2009 - 1800)))) \<and>
        lastTween (pVals (step nations box s (TimerTick k e))) = lastTween (pVals s) \<and>
        ((\<exists>sc' \<in> set (schedules (step nations box s (TimerTick k e))). active sc') \<longrightarrow>
           currYear (pVals (run nations box s [TimerTick k e, ClickStop])) =
             Math_round (jsadd (Num 1800)
               (jsmul (lastTween (pVals (run nations box s [TimerTick k e, ClickStop])))
                  (Num (2009 - 1800)))))) \<and>
     (v \<in> \<int> \<longrightarrow>
        currYear (pVals (step nations box s (Slide v))) = Num v \<and>
        Math_round (jsadd (Num 1800)
          (jsmul (lastTween (pVals (step nations box s (Slide v)))) (Num (2009 - 1800)))) = Num v)"
proof (intro conjI ballI impI)
  fix sc
  assume sc: "sc \<in> set (schedules s)" and a: "active sc \<and> sid sc = k"
  have i: "inv s" using assms inv_init inv_run by simp
  obtain sc' where f: "find (\<lambda>sc. sid sc = k \<and> active sc) (schedules s) = Some sc'"
    using sc a by (cases "find (\<lambda>sc. sid sc = k \<and> active sc) (schedules s)")
      (auto simp: find_None_iff)
  then have "sc' \<in> set (schedules s)" "active sc'" by (auto simp: find_Some_iff)
  then have tw: "tween sc' = Num 1800" using i by (simp add: inv_def)
  obtain t where t: "pVals (d3_tick nations k e s) =
      (pVals s)\<lparr>currTween := jsadd t (lastTween (pVals s)),
                currYear := Math_round (interpolateNumber (Num 1800) (Num 2009)
                                          (jsadd t (lastTween (pVals s))))\<rparr>"
    using d3_tick_pVals [OF f, of nations e] tw by auto
  show "currYear (pVals (step nations box s (TimerTick k e))) =
          Math_round (jsadd (Num 1800)
            (jsmul (currTween (pVals (step nations box s (TimerTick k e)))) (Num (2009 - 1800))))"
    by (simp add: t interpolateNumber_years)
  show "lastTween (pVals (step nations box s (TimerTick k e))) = lastTween (pVals s)"
    by (simp add: t)
  assume "\<exists>sc' \<in> set (schedules (step nations box s (TimerTick k e))). active sc'"
  then have "pVals (stopPlaying (d3_tick nations k e s)) =
      (pVals (d3_tick nations k e s))\<lparr>lastTween := currTween (pVals (d3_tick nations k e s))\<rparr>"
    by (simp add: stopPlaying_pVals)
  then show "currYear (pVals (run nations box s [TimerTick k e, ClickStop])) =
             Math_round (jsadd (Num 1800)
               (jsmul (lastTween (pVals (run nations box s [TimerTick k e, ClickStop])))
                  (Num (2009 - 1800))))"
    by (simp add: run_def t interpolateNumber_years)
next
  assume "v \<in> \<int>"
  then obtain z where z: "v = of_int z" by (auto elim: Ints_cases)
  have p: "pVals (settle (slide nations v s)) =
      (pVals s)\<lparr>currYear := Num v, lastTween := Num ((v - 1800) / (2009 - 1800))\<rparr>"
    by (simp add: settle_pVals slide_def Let_def displayYear_pVals calRatio_def jssub_def jsdiv_def)
  show "currYear (pVals (step nations box s (Slide v))) = Num v"
    by (simp add: p)
  have "(v - 1800) / (2009 - 1800) * (2009 - 1800) = v - 1800" by simp
  then have "1800 + (v - 1800) / (2009 - 1800) * (2009 - 1800) = v" by linarith
  moreover have "jsadd (Num 1800) (jsmul (Num ((v - 1800) / (2009 - 1800))) (Num (2009 - 1800)))
      = Num (1800 + (v - 1800) / (2009 - 1800) * (2009 - 1800))"
    unfolding jsadd_def jsmul_def toNumber.simps by (simp only: prod.case option.case toNumber.simps)
  ultimately have e: "jsadd (Num 1800) (jsmul (Num ((v - 1800) / (2009 - 1800))) (Num (2009 - 1800))) = Num v"
    by (simp only:)
  have r: "Math_round (Num v) = Num v" unfolding z by (rule Math_round_int)
  have lt: "lastTween (pVals (settle (slide nations v s))) = Num ((v - 1800) / (2009 - 1800))"
    unfolding p by simp
  show "Math_round (jsadd (Num 1800)
          (jsmul (lastTween (pVals (step nations box s (Slide v)))) (Num (2009 - 1800)))) = Num v"
    unfolding step.simps lt e r ..
qed

theorem playback_consistency_witness:
  "init scenario_nations = Inr scenario_init \<and>
   map (\<lambda>sc. (sid sc, active sc)) (schedules scenario_playing) = [(0, True)] \<and>
   pVals (step scenario_nations scenario_box scenario_playing (TimerTick 0 156750)) =
     \<lparr>lastTween = Num 0, currTween = Num (3 / 4), currYear = Num 1957\<rparr> \<and>
   Math_round (jsadd (Num 1800) (jsmul (Num (3 / 4)) (Num (2009 - 1800)))) = Num 1957 \<and>
   pVals (run scenario_nations scenario_box scenario_playing [TimerTick 0 156750, ClickStop]) =
     \<lparr>lastTween = Num (3 / 4), currTween = Num (3 / 4), currYear = Num 1957\<rparr> \<and>
   1900 \<in> \<int> \<and>
   currYear (pVals (step scenario_nations scenario_box scenario_playing (Slide 1900))) = Num 1900 \<and>
   Math_round (jsadd (Num 1800)
     (jsmul (lastTween (pVals (step scenario_nations scenario_box scenario_playing (Slide 1900))))
        (Num (2009 - 1800)))) = Num 1900"
proof -
  have h: "init scenario_nations = Inr scenario_init" by code_simp
  have sch: "schedules scenario_playing =
      [\<lparr>sid = 0, phase = RUNNING, sduration = Num 209000, tween = Num 1800\<rparr>]"
    by code_simp
  have tick: "pVals (step scenario_nations scenario_box scenario_playing (TimerTick 0 156750)) =
     \<lparr>lastTween = Num 0, currTween = Num (3 / 4), currYear = Num 1957\<rparr>"
    by code_simp
  have stop: "pVals (run scenario_nations scenario_box scenario_playing [TimerTick 0 156750, ClickStop]) =
     \<lparr>lastTween = Num (3 / 4), currTween = Num (3 / 4), currYear = Num 1957\<rparr>"
    by code_simp
  have int: "(1900::real) \<in> \<int>" by simp
  show ?thesis
    using h int playback_consistency [OF h scenario_playing_def, where k = 0 and e = 156750 and v = 1900]
    by (simp add: sch active_def tick stop del: step.simps)
qed

text \<open>
  C8.  Once the overlay is armed, a pointer movement over it replaces what is displayed by
  the frame, label and slider value of the year under the pointer and changes nothing
  else; in particular \<open>window.pVals\<close> stays as it is.
\<close>

theorem mousemove_transient:
  assumes "interpolateData nations (Num (yearScale_invert box px)) = Inr frame" and "armed s"
  shows "pVals (step nations box s (Mousemove px)) = pVals s \<and>
         step nations box s (Mousemove px) =
           s\<lparr>display := \<lparr>dots = frame,
                          label = Math_round (Num (yearScale_invert box px)),
                          slider = Math_round (Num (yearScale_invert box px))\<rparr>\<rparr>"
  using assms by (simp add: mousemove_def displayYear_def settle_def)

theorem mousemove_transient_witness:
  "interpolateData scenario_nations (Num (yearScale_invert scenario_box 50)) =
     Inr [\<lparr>name = ''A'', region = ''R'', income = Num 180, population = Num 180,
           lifeExpectancy = Num 180\<rparr>] \<and>
   armed (step scenario_nations scenario_box scenario_paused Mouseover) \<and>
   pVals (run scenario_nations scenario_box scenario_paused [Mouseover, Mousemove 50]) =
     \<lparr>lastTween = Num (1 / 2), currTween = Num (1 / 2), currYear = Num 1905\<rparr> \<and>
   display (run scenario_nations scenario_box scenario_paused [Mouseover, Mousemove 50]) =
     \<lparr>dots = [\<lparr>name = ''A'', region = ''R'', income = Num 180, population = Num 180,
                lifeExpectancy = Num 180\<rparr>],
      label = Num 1840, slider = Num 1840\<rparr>"
proof -
  have f: "interpolateData scenario_nations (Num (yearScale_invert scenario_box 50)) =
     Inr [\<lparr>name = ''A'', region = ''R'', income = Num 180, population = Num 180,
           lifeExpectancy = Num 180\<rparr>]"
    by code_simp
  have a: "armed (step scenario_nations scenario_box scenario_paused Mouseover)"
    by (simp add: enableInteraction_def)
  have p: "pVals (step scenario_nations scenario_box scenario_paused Mouseover) =
     \<lparr>lastTween = Num (1 / 2), currTween = Num (1 / 2), currYear = Num 1905\<rparr>"
    by code_simp
  have r: "Math_round (Num (yearScale_invert scenario_box 50)) = Num 1840" by code_simp
  have "run scenario_nations scenario_box scenario_paused [Mouseover, Mousemove 50] =
      step scenario_nations scenario_box
        (step scenario_nations scenario_box scenario_paused Mouseover) (Mousemove 50)"
    by (simp add: run_def)
  then show ?thesis
    using f a mousemove_transient [OF f a] p r by (simp del: step.simps)
qed




section \<open>Rounding to double precision\<close>






section \<open>Claims that depend on rounding\<close>

text \<open>
  C1, as stated, fails in the last place: the code weights by the fraction taken from the
  upper sample over the reversed denominator, and that expression and the spec's round
  differently.  On the spec's series at 1803 the code returns \<open>106.00000000000001\<close>, the
  spec's formula 106.
\<close>

theorem interpolateValues64_between_counterexample:
  "sorted_wrt (<) (map fst scenario_series) \<and>
   fst (scenario_series ! 0) < 1803 \<and> 1803 < fst (scenario_series ! 1) \<and>
   interpolateValues64 scenario_series (Num 1803) = Inr (Num (7459086882832385 / 2 ^ 46)) \<and>
   valueAt_spec64 (scenario_series ! 0) (scenario_series ! 1) (Num 1803) = Num 106 \<and>
   (7459086882832385 / 2 ^ 46 :: real) \<noteq> 106"
  by code_simp

text \<open>
  C1, amended.  On a series with strictly ascending years and at least two samples, a
  query year strictly between the years of two adjacent samples yields
  \<open>upper.value * (1 - s) + lower.value * s\<close> with
  \<open>s = (year - upper.year) / (lower.year - upper.year)\<close>, each operation rounded to a
  double.  As real numbers this expression and the spec's
  \<open>lower.value * (1 - t) + upper.value * t\<close>,
  \<open>t = (year - lower.year) / (upper.year - lower.year)\<close>, are equal.  On the samples
  (1800, 100), (1850, 200), (1900, 300) the value at 1825 is exactly 150.
\<close>

theorem interpolateValues64_between:
  assumes "sorted_wrt (<) (map fst values)" and "2 \<le> length values"
    and "Suc k < length values"
    and "fst (values ! k) < year" and "year < fst (values ! Suc k)"
  shows "interpolateValues64 values (Num year) =
           Inr (let lower = values ! k; upper = values ! Suc k;
                    s = jsdiv64 (jssub64 (Num year) (Num (fst upper)))
                          (jssub64 (Num (fst lower)) (Num (fst upper)))
                in jsadd64 (jsmul64 (Num (snd upper)) (jssub64 (Num 1) s))
                     (jsmul64 (Num (snd lower)) s)) \<and>
         (let lower = values ! k; upper = values ! Suc k;
              s = (year - fst upper) / (fst lower - fst upper);
              t = (year - fst lower) / (fst upper - fst lower)
          in snd upper * (1 - s) + snd lower * s = snd lower * (1 - t) + snd upper * t)"
proof
  have i: "bisect_left values (Num year) 0 (int (length values) - 1) = int (Suc k)"
    using bisect_left_between [OF assms(1) assms(3) assms(4) assms(5)] .
  have ne: "values \<noteq> []" using assms(2) by auto
  have i1: "nat (int (Suc k)) = Suc k" "nat (int (Suc k) - 1) = k" "0 < int (Suc k)"
    by simp_all
  show "interpolateValues64 values (Num year) =
           Inr (let lower = values ! k; upper = values ! Suc k;
                    s = jsdiv64 (jssub64 (Num year) (Num (fst upper)))
                          (jssub64 (Num (fst lower)) (Num (fst upper)))
                in jsadd64 (jsmul64 (Num (snd upper)) (jssub64 (Num 1) s))
                     (jsmul64 (Num (snd lower)) s))"
    using ne unfolding interpolateValues64_def i Let_def i1 by simp
  define ly lv uy uv where "ly = fst (values ! k)" and "lv = snd (values ! k)"
    and "uy = fst (values ! Suc k)" and "uv = snd (values ! Suc k)"
  have dd: "ly < uy" using assms(4,5) by (simp add: ly_def uy_def)
  have "(year - uy) / (ly - uy) = 1 - (year - ly) / (uy - ly)"
    using dd by (simp add: field_simps)
  then have "uv * (1 - (year - uy) / (ly - uy)) + lv * ((year - uy) / (ly - uy))
      = lv * (1 - (year - ly) / (uy - ly)) + uv * ((year - ly) / (uy - ly))"
    by simp
  then show "let lower = values ! k; upper = values ! Suc k;
              s = (year - fst upper) / (fst lower - fst upper);
              t = (year - fst lower) / (fst upper - fst lower)
          in snd upper * (1 - s) + snd lower * s = snd lower * (1 - t) + snd upper * t"
    by (simp add: Let_def ly_def lv_def uy_def uv_def)
qed

theorem interpolateValues64_between_witness:
  "sorted_wrt (<) (map fst scenario_series) \<and> 2 \<le> length scenario_series \<and>
   Suc 0 < length scenario_series \<and>
   fst (scenario_series ! 0) < 1825 \<and> 1825 < fst (scenario_series ! Suc 0) \<and>
   interpolateValues64 scenario_series (Num 1825) = Inr (Num 150)"
proof -
  have h: "sorted_wrt (<) (map fst scenario_series)" "2 \<le> length scenario_series"
    "Suc 0 < length scenario_series"
    "fst (scenario_series ! 0) < 1825" "1825 < fst (scenario_series ! Suc 0)"
    by (simp_all add: scenario_series_def)
  have v: "(let lower = scenario_series ! 0; upper = scenario_series ! Suc 0;
                s = jsdiv64 (jssub64 (Num 1825) (Num (fst upper)))
                      (jssub64 (Num (fst lower)) (Num (fst upper)))
            in jsadd64 (jsmul64 (Num (snd upper)) (jssub64 (Num 1) s))
                 (jsmul64 (Num (snd lower)) s)) = Num 150"
    by code_simp
  show ?thesis
    using h interpolateValues64_between [OF h] unfolding v by simp
qed

text \<open>
  C9, as stated, fails in the last place: on the spec's series at 1906 the code returns
  \<open>312.00000000000006\<close>, the extrapolation formula 312.
\<close>

theorem interpolateValues64_after_last_counterexample:
  "sorted_wrt (<) (map fst scenario_series) \<and> fst (last scenario_series) < 1906 \<and>
   interpolateValues64 scenario_series (Num 1906) = Inr (Num (5488762045857793 / 2 ^ 44)) \<and>
   extrapolation_spec64 (scenario_series ! 1) (last scenario_series) (Num 1906) = Num 312 \<and>
   (5488762045857793 / 2 ^ 44 :: real) \<noteq> 312"
  by code_simp

text \<open>
  C9, amended.  On a series with strictly ascending years and at least two samples, a
  query year beyond the last sample's year does not fail: the bisection index is capped at
  the last element and the result is \<open>last.value * (1 - s) + secondLast.value * s\<close> with
  \<open>s = (year - last.year) / (secondLast.year - last.year)\<close>, each operation rounded to a
  double.  As real numbers this expression equals the linear extrapolation
  \<open>last.value + (year - last.year) * (last.value - secondLast.value)
     / (last.year - secondLast.year)\<close>.
\<close>

theorem interpolateValues64_after_last:
  assumes "sorted_wrt (<) (map fst values)" and "2 \<le> length values"
    and "fst (last values) < year"
  shows "bisect_left values (Num year) 0 (int (length values) - 1) = int (length values) - 1 \<and>
         interpolateValues64 values (Num year) =
           Inr (let last' = last values; secondLast = values ! (length values - 2);
                    s = jsdiv64 (jssub64 (Num year) (Num (fst last')))
                          (jssub64 (Num (fst secondLast)) (Num (fst last')))
                in jsadd64 (jsmul64 (Num (snd last')) (jssub64 (Num 1) s))
                     (jsmul64 (Num (snd secondLast)) s)) \<and>
         (let last' = last values; secondLast = values ! (length values - 2);
              s = (year - fst last') / (fst secondLast - fst last')
          in snd last' * (1 - s) + snd secondLast * s =
             snd last' + (year - fst last') * (snd last' - snd secondLast)
               / (fst last' - fst secondLast))"
proof (intro conjI)
  define n where "n = length values - 2"
  have len: "length values = Suc (Suc n)" using assms(2) by (simp add: n_def)
  have ne: "values \<noteq> []" using assms(2) by auto
  have l: "last values = values ! Suc n" using ne len by (simp add: last_conv_nth)
  have srt: "sorted (map fst values)" using assms(1) by (simp add: strict_sorted_iff)
  have i: "bisect_left values (Num year) 0 (int (length values) - 1) = int (Suc n)"
    using bisect_left_after_last [OF srt ne, of year] assms(3) l len by simp
  show "bisect_left values (Num year) 0 (int (length values) - 1) = int (length values) - 1"
    using i len by simp
  have i1: "nat (int (Suc n)) = Suc n" "nat (int (Suc n) - 1) = n" "0 < int (Suc n)"
    by simp_all
  have "interpolateValues64 values (Num year) =
      Inr (jsadd64 (jsmul64 (Num (snd (values ! Suc n)))
                      (jssub64 (Num 1)
                         (jsdiv64 (jssub64 (Num year) (Num (fst (values ! Suc n))))
                            (jssub64 (Num (fst (values ! n))) (Num (fst (values ! Suc n)))))))
             (jsmul64 (Num (snd (values ! n)))
                (jsdiv64 (jssub64 (Num year) (Num (fst (values ! Suc n))))
                   (jssub64 (Num (fst (values ! n))) (Num (fst (values ! Suc n)))))))"
    using ne unfolding interpolateValues64_def i Let_def i1 by simp
  then show "interpolateValues64 values (Num year) =
           Inr (let last' = last values; secondLast = values ! (length values - 2);
                    s = jsdiv64 (jssub64 (Num year) (Num (fst last')))
                          (jssub64 (Num (fst secondLast)) (Num (fst last')))
                in jsadd64 (jsmul64 (Num (snd last')) (jssub64 (Num 1) s))
                     (jsmul64 (Num (snd secondLast)) s))"
    unfolding Let_def l n_def [symmetric] .
  have d: "fst (values ! n) < fst (values ! Suc n)"
    using strict_years_nth [OF assms(1), of n "Suc n"] len by simp
  define ay av b_y bv where "ay = fst (values ! Suc n)" and "av = snd (values ! Suc n)"
    and "b_y = fst (values ! n)" and "bv = snd (values ! n)"
  have dd: "b_y < ay" using d by (simp add: ay_def b_y_def)
  define u where "u = (year - ay) / (ay - b_y)"
  have "(year - ay) / (b_y - ay) = - u"
    using dd by (simp add: u_def field_simps)
  moreover have "(year - ay) * (av - bv) / (ay - b_y) = u * (av - bv)"
    by (simp add: u_def)
  ultimately have "av * (1 - (year - ay) / (b_y - ay)) + bv * ((year - ay) / (b_y - ay))
      = av + (year - ay) * (av - bv) / (ay - b_y)"
    by (simp add: algebra_simps)
  then show "let last' = last values; secondLast = values ! (length values - 2);
              s = (year - fst last') / (fst secondLast - fst last')
          in snd last' * (1 - s) + snd secondLast * s =
             snd last' + (year - fst last') * (snd last' - snd secondLast)
               / (fst last' - fst secondLast)"
    unfolding Let_def l n_def [symmetric] by (simp add: ay_def av_def b_y_def bv_def)
qed

theorem interpolateValues64_after_last_witness:
  "sorted_wrt (<) (map fst scenario_series) \<and> 2 \<le> length scenario_series \<and>
   fst (last scenario_series) < 1950 \<and>
   bisect_left scenario_series (Num 1950) 0 (int (length scenario_series) - 1) = 2 \<and>
   interpolateValues64 scenario_series (Num 1950) = Inr (Num 400)"
proof -
  have h: "sorted_wrt (<) (map fst scenario_series)" "2 \<le> length scenario_series"
    "fst (last scenario_series) < 1950"
    by (simp_all add: scenario_series_def)
  have v: "(let last' = last scenario_series;
                secondLast = scenario_series ! (length scenario_series - 2);
                s = jsdiv64 (jssub64 (Num 1950) (Num (fst last')))
                      (jssub64 (Num (fst secondLast)) (Num (fst last')))
            in jsadd64 (jsmul64 (Num (snd last')) (jssub64 (Num 1) s))
                 (jsmul64 (Num (snd secondLast)) s)) = Num 400"
    by code_simp
  have n: "int (length scenario_series) - 1 = 2" by (simp add: scenario_series_def)
  show ?thesis
    using h interpolateValues64_after_last [OF h] unfolding v n by simp
qed




end
